theory Spec2Isabelle
  imports Complex_Main
begin

section \<open>Python values used by the photomosaic engine\<close>

text \<open>
  The engine is Python: integers are unbounded (\<open>int\<close>), \<open>/\<close> is true division and
  yields a float, \<open>int(...)\<close> truncates toward zero and \<open>round(...)\<close> rounds half to
  even. Every exception the modelled code can raise, and the early \<open>return\<close> of
  \<open>mosaic\<close> after its "not enough images" message, is a value of \<open>error\<close>.
  Some names of the source are taken by constants of the library and are written
  differently here: the grid dimension \<open>dim\<close> is \<open>dimn\<close>, the running sums
  \<open>dist\<close> of \<open>distance\<close> and \<open>metric\<close> are \<open>dsum\<close>, the running maximum
  \<open>max\<close> of \<open>metric\<close> is \<open>maxd\<close>.
\<close>

datatype error = AssertionError | IndexError | ZeroDivisionError | ValueError | NotEnoughImages

definition py_range :: "int \<Rightarrow> nat list" where
  "py_range n = [0..<nat n]"

definition py_int :: "real \<Rightarrow> int" where
  "py_int v = (if 0 \<le> v then \<lfloor>v\<rfloor> else \<lceil>v\<rceil>)"

definition py_round :: "real \<Rightarrow> int" where
  "py_round v =
     (let f = \<lfloor>v\<rfloor>; r = v - of_int f
      in if r < 1 / 2 then f
         else if 1 / 2 < r then f + 1
         else if even f then f else f + 1)"

text \<open>
  A Python float is an IEEE 754 double: the result of \<open>+\<close>, \<open>*\<close>, \<open>/\<close> and
  \<open>math.sqrt\<close> is the exact result rounded to the nearest number with a 53-bit
  mantissa, ties going to the even mantissa. \<open>fl\<close> is that rounding; the exponent is
  left unbounded, so overflow and subnormal numbers, which no quantity of the engine
  comes near, are not covered. The functions of the engine whose result depends on the
  rounding take it as their first parameter \<open>rnd\<close>: with \<open>fl\<close> they compute what
  the code computes, with \<open>exact\<close> they compute over the real numbers. An integer
  operand of a float operation is converted without rounding, as every integer below
  \<open>2^53\<close> is. Where no rounding is written (\<open>colours\<close>, \<open>metric\<close>, the tests of the
  spiral walk) the arithmetic is over the real numbers.
\<close>

definition fl :: "real \<Rightarrow> real" where
  "fl v =
     (if v = 0 then 0
      else (let e = \<lfloor>log 2 \<bar>v\<bar>\<rfloor>;
                u = 2 powr real_of_int (e - 52)
            in sgn v * real_of_int (py_round (\<bar>v\<bar> / u)) * u))"

definition exact :: "real \<Rightarrow> real" where
  "exact v = v"

text \<open>
  A PIL image in RGB mode: its size and its pixels. \<open>getpixel((x, y))\<close> raises
  IndexError outside the image; the engine only ever passes non-negative coordinates.
\<close>

type_synonym rgb = "int \<times> int \<times> int"

record image =
  width :: int
  height :: int
  pixel :: "int \<Rightarrow> int \<Rightarrow> rgb"

definition getpixel :: "image \<Rightarrow> int \<times> int \<Rightarrow> error + rgb" where
  "getpixel im xy =
     (case xy of (x, y) \<Rightarrow>
        if 0 \<le> x \<and> x < width im \<and> 0 \<le> y \<and> y < height im
        then Inr (pixel im x y) else Inl IndexError)"

text \<open>
  A colour table entry is \<open>(filename, (redval, greenval, blueval))\<close>, three parallel
  lists with one value per grid cell, as \<open>readcolourtable\<close> builds it.
\<close>

type_synonym colours = "int list \<times> int list \<times> int list"
type_synonym ctable = "(string \<times> colours) list"

section \<open>mosaic.py: distance\<close>

text \<open>
  The loop \<open>for p in range(dim*dim)\<close> of \<open>distance\<close>, with the running sum
  \<open>dsum\<close>. Indexing a list beyond its end raises IndexError. The square root and
  the addition \<open>dist += d\<close> are float operations.
\<close>

fun distance_loop ::
  "(real \<Rightarrow> real) \<Rightarrow> nat list \<Rightarrow> int list \<Rightarrow> int list \<Rightarrow> int list \<Rightarrow> int list \<Rightarrow> int list \<Rightarrow> int list
     \<Rightarrow> real \<Rightarrow> error + real" where
  "distance_loop rnd [] r1 g1 b1 r2 g2 b2 dsum = Inr dsum"
| "distance_loop rnd (p # ps) r1 g1 b1 r2 g2 b2 dsum =
     (if p < length r1 \<and> p < length r2 \<and> p < length g1 \<and> p < length g2
         \<and> p < length b1 \<and> p < length b2
      then
        (let reddist = \<bar>r1 ! p - r2 ! p\<bar>;
             greendist = \<bar>g1 ! p - g2 ! p\<bar>;
             bluedist = \<bar>b1 ! p - b2 ! p\<bar>;
             d = rnd (sqrt (real_of_int (reddist * reddist + greendist * greendist
                                          + bluedist * bluedist)))
         in distance_loop rnd ps r1 g1 b1 r2 g2 b2 (rnd (dsum + d)))
      else Inl IndexError)"

definition distance ::
  "(real \<Rightarrow> real) \<Rightarrow> int \<Rightarrow> int list \<Rightarrow> int list \<Rightarrow> int list \<Rightarrow> int list \<Rightarrow> int list \<Rightarrow> int list
     \<Rightarrow> error + real" where
  "distance rnd dimn r1 g1 b1 r2 g2 b2 =
     distance_loop rnd (py_range (dimn * dimn)) r1 g1 b1 r2 g2 b2 0"

text \<open>
  The distance as \<open>findBestTile\<close> uses it: \<open>dist = distance(...)\<close> followed by
  \<open>dist = dist / (dim*dim)\<close>, a float division that raises ZeroDivisionError when
  \<open>dim\<close> is 0.
\<close>

definition tile_distance ::
  "(real \<Rightarrow> real) \<Rightarrow> int \<Rightarrow> colours \<Rightarrow> colours \<Rightarrow> error + real" where
  "tile_distance rnd dimn a b =
     (case a of (r, g, bl) \<Rightarrow> case b of (tr, tg, tb) \<Rightarrow>
        (case distance rnd dimn r g bl tr tg tb of
           Inl e \<Rightarrow> Inl e
         | Inr dsum \<Rightarrow>
             if dimn * dimn = 0 then Inl ZeroDivisionError
             else Inr (rnd (dsum / real_of_int (dimn * dimn)))))"

text \<open>The three-channel Euclidean distance of cell \<open>p\<close> of two signatures.\<close>

definition cell_dist :: "colours \<Rightarrow> colours \<Rightarrow> nat \<Rightarrow> real" where
  "cell_dist a b p =
     (case a of (r1, g1, b1) \<Rightarrow> case b of (r2, g2, b2) \<Rightarrow>
        sqrt (real_of_int ((r1 ! p - r2 ! p)\<^sup>2 + (g1 ! p - g2 ! p)\<^sup>2 + (b1 ! p - b2 ! p)\<^sup>2)))"

text \<open>
  The sum \<open>distance\<close> returns for two signatures, the cells taken in the order
  \<open>ps\<close>: each square root is rounded, and so is the running sum after each addition.
\<close>

definition summed :: "(real \<Rightarrow> real) \<Rightarrow> colours \<Rightarrow> colours \<Rightarrow> nat list \<Rightarrow> real" where
  "summed rnd a b ps = foldl (\<lambda>dsum p. rnd (dsum + rnd (cell_dist a b p))) 0 ps"

text \<open>A signature for grid dimension \<open>dimn\<close>: each channel list has \<open>dimn*dimn\<close> entries.\<close>

definition is_signature :: "int \<Rightarrow> colours \<Rightarrow> bool" where
  "is_signature dimn a =
     (case a of (r, g, b) \<Rightarrow>
        length r = nat (dimn * dimn) \<and> length g = nat (dimn * dimn) \<and> length b = nat (dimn * dimn))"

section \<open>mosaic.py: findBestTile\<close>

text \<open>
  The pixel sampling loops of \<open>findBestTile\<close>: for \<open>fx\<close> and \<open>fy\<close> in
  \<open>range(dim)\<close>, the pixel at \<open>(col*dim+fx, row*dim+fy)\<close> is appended to the three
  channel lists. \<open>getpixel\<close> raises IndexError outside the image.
\<close>

definition sample_coords :: "int \<Rightarrow> int \<Rightarrow> int \<Rightarrow> (int \<times> int) list" where
  "sample_coords dimn row col =
     [(col * dimn + int fx, row * dimn + int fy). fx \<leftarrow> py_range dimn, fy \<leftarrow> py_range dimn]"

fun sample_loop :: "image \<Rightarrow> (int \<times> int) list \<Rightarrow> colours \<Rightarrow> error + colours" where
  "sample_loop inimage [] rgbs = Inr rgbs"
| "sample_loop inimage (xy # xys) (r, g, b) =
     (case getpixel inimage xy of
        Inl e \<Rightarrow> Inl e
      | Inr (rp, gp, bp) \<Rightarrow> sample_loop inimage xys (r @ [rp], g @ [gp], b @ [bp]))"

text \<open>
  The scan \<open>for i in range(len(table))\<close>. The pair \<open>(bestTileIndex, bestDistance)\<close>
  is \<open>None\<close> while \<open>found\<close> is False. A tile is a candidate when duplicates are
  allowed or its index is not in \<open>placedTiles\<close>; it replaces the best one so far only
  when its distance, the float \<open>dist / (dim*dim)\<close>, is strictly smaller.
\<close>

fun findBestTile_loop ::
  "(real \<Rightarrow> real) \<Rightarrow> bool \<Rightarrow> int set \<Rightarrow> ctable \<Rightarrow> int \<Rightarrow> colours \<Rightarrow> nat list \<Rightarrow> (int \<times> real) option
     \<Rightarrow> error + (int \<times> real) option" where
  "findBestTile_loop rnd allowDups placedTiles table dimn sg [] best = Inr best"
| "findBestTile_loop rnd allowDups placedTiles table dimn sg (i # is) best =
     (if allowDups \<or> int i \<notin> placedTiles then
        (case table ! i of (name, colours) \<Rightarrow>
           (case tile_distance rnd dimn sg colours of
              Inl e \<Rightarrow> Inl e
            | Inr d \<Rightarrow>
                findBestTile_loop rnd allowDups placedTiles table dimn sg is
                  (case best of
                     None \<Rightarrow> Some (int i, d)
                   | Some (bestTileIndex, bestDistance) \<Rightarrow>
                       if d < bestDistance then Some (int i, d) else best)))
      else findBestTile_loop rnd allowDups placedTiles table dimn sg is best)"

definition findBestTile ::
  "(real \<Rightarrow> real) \<Rightarrow> image \<Rightarrow> bool \<Rightarrow> int set \<Rightarrow> ctable \<Rightarrow> int \<Rightarrow> int \<Rightarrow> int
     \<Rightarrow> error + (int \<times> real)" where
  "findBestTile rnd inimage allowDups placedTiles table dimn row col =
     (case sample_loop inimage (sample_coords dimn row col) ([], [], []) of
        Inl e \<Rightarrow> Inl e
      | Inr sg \<Rightarrow>
          (case findBestTile_loop rnd allowDups placedTiles table dimn sg
                  (py_range (int (length table))) None of
             Inl e \<Rightarrow> Inl e
           | Inr None \<Rightarrow> Inl AssertionError
           | Inr (Some best) \<Rightarrow> Inr best))"

text \<open>
  The candidate set of the scan, and the distance of table entry \<open>j\<close> to a signature as
  the scan computes it (the value \<open>tile_distance\<close> returns on signatures): the rounded
  sum over the cells in the order of the loop, divided by \<open>dim*dim\<close> and rounded. With
  \<open>exact\<close> for \<open>rnd\<close> it is the distance over the real numbers.
\<close>

definition candidates :: "bool \<Rightarrow> int set \<Rightarrow> ctable \<Rightarrow> nat set" where
  "candidates allowDups placedTiles table =
     {j. j < length table \<and> (allowDups \<or> int j \<notin> placedTiles)}"

definition entry_dist :: "(real \<Rightarrow> real) \<Rightarrow> int \<Rightarrow> colours \<Rightarrow> ctable \<Rightarrow> nat \<Rightarrow> real" where
  "entry_dist rnd dimn sg table j =
     rnd (summed rnd sg (snd (table ! j)) [0..<nat (dimn * dimn)] / real_of_int (dimn * dimn))"

section \<open>mosaic.py: placeBestTile and placeSpiral\<close>

definition MOSAIC_ORIGINAL_TILE_INDEX :: int where
  "MOSAIC_ORIGINAL_TILE_INDEX = - 1"

definition MOSAIC_ORIGINAL_TILE_DISTANCE :: real where
  "MOSAIC_ORIGINAL_TILE_DISTANCE = 0"

type_synonym placement = "int \<times> int \<rightharpoonup> int \<times> real"

text \<open>
  \<open>placeBestTile\<close> stores \<open>(bestTileIndex, bestDistance)\<close> under the key
  \<open>(row, col)\<close> and adds the index to \<open>placedTiles\<close>, for the original tile too. The
  parameters \<open>cnt\<close> and \<open>nTiles\<close> only feed a debugging message. Reading the tile name
  \<open>table[bestTileIndex][0]\<close> cannot fail: the index comes from the scan.
\<close>

definition placeBestTile ::
  "(real \<Rightarrow> real) \<Rightarrow> int \<Rightarrow> int \<Rightarrow> nat \<Rightarrow> int \<Rightarrow> image \<Rightarrow> bool \<Rightarrow> placement \<Rightarrow> int set \<Rightarrow> ctable \<Rightarrow> int
     \<Rightarrow> int \<Rightarrow> int \<Rightarrow> error + placement \<times> int set" where
  "placeBestTile rnd originalRow originalCol cnt nTiles inimage allowDups tileLocations
       placedTiles table dimn row col =
     (case (if row = originalRow \<and> col = originalCol
            then Inr (MOSAIC_ORIGINAL_TILE_INDEX, MOSAIC_ORIGINAL_TILE_DISTANCE)
            else findBestTile rnd inimage allowDups placedTiles table dimn row col) of
        Inl e \<Rightarrow> Inl e
      | Inr (bestTileIndex, bestDistance) \<Rightarrow>
          Inr (tileLocations((row, col) \<mapsto> (bestTileIndex, bestDistance)),
               insert bestTileIndex placedTiles))"

text \<open>
  The spiral walk. The walker is \<open>(x, y, dx, dy)\<close>; one pass of the loop body ends
  with the turn test and the move. The test \<open>-XD/2 < x <= XD/2\<close> uses true division.
\<close>

type_synonym walker = "int \<times> int \<times> int \<times> int"

definition turns :: "int \<Rightarrow> int \<Rightarrow> bool" where
  "turns x y = (x = y \<or> (x < 0 \<and> x = - y) \<or> (0 < x \<and> x = 1 - y))"

definition spiral_step :: "walker \<Rightarrow> walker" where
  "spiral_step w =
     (case w of (x, y, dx, dy) \<Rightarrow>
        (case (if turns x y then (- dy, dx) else (dx, dy)) of
           (dx', dy') \<Rightarrow> (x + dx', y + dy', dx', dy')))"

definition in_grid :: "int \<Rightarrow> int \<Rightarrow> int \<Rightarrow> int \<Rightarrow> bool" where
  "in_grid XD YD x y =
     (- real_of_int XD / 2 < real_of_int x \<and> real_of_int x \<le> real_of_int XD / 2
      \<and> - real_of_int YD / 2 < real_of_int y \<and> real_of_int y \<le> real_of_int YD / 2)"

text \<open>
  The loop \<open>for i in range(max(XD, YD)**2)\<close> of \<open>placeSpiral\<close>, with the number of
  passes left as first counter. The call made for an accepted cell is the parameter
  \<open>place\<close>, given the row \<open>jc+y\<close>, the column \<open>ic+x\<close>, \<open>cnt\<close> and the
  state it updates; \<open>placeSpiral\<close> passes \<open>placeBestTile\<close>.
\<close>

fun spiral_loop ::
  "(int \<Rightarrow> int \<Rightarrow> nat \<Rightarrow> 's \<Rightarrow> error + 's) \<Rightarrow> int \<Rightarrow> int \<Rightarrow> int \<Rightarrow> int \<Rightarrow> nat \<Rightarrow> walker \<Rightarrow> nat
     \<Rightarrow> 's \<Rightarrow> error + 's" where
  "spiral_loop place XD YD ic jc 0 w cnt st = Inr st"
| "spiral_loop place XD YD ic jc (Suc n) w cnt st =
     (case w of (x, y, dx, dy) \<Rightarrow>
        if in_grid XD YD x y then
          (case place (jc + y) (ic + x) cnt st of
             Inl e \<Rightarrow> Inl e
           | Inr st' \<Rightarrow> spiral_loop place XD YD ic jc n (spiral_step w) (cnt + 1) st')
        else spiral_loop place XD YD ic jc n (spiral_step w) cnt st)"

definition spiral_walk ::
  "(int \<Rightarrow> int \<Rightarrow> nat \<Rightarrow> 's \<Rightarrow> error + 's) \<Rightarrow> int \<Rightarrow> int \<Rightarrow> 's \<Rightarrow> error + 's" where
  "spiral_walk place XD YD st =
     (let ic = py_int (real_of_int (XD - 1) / 2);
          jc = py_int (real_of_int (YD - 1) / 2)
      in spiral_loop place XD YD ic jc (nat ((max XD YD)\<^sup>2)) (0, 0, 0, - 1) 0 st)"

text \<open>
  \<open>placeSpiral\<close> in two parts: the final \<open>(tileLocations, placedTiles)\<close> of the
  loop, started from the empty dictionary and the empty set, and the returned pair
  \<open>(tileLocations, len(placedTiles))\<close>.
\<close>

definition placeSpiral_state ::
  "(real \<Rightarrow> real) \<Rightarrow> image \<Rightarrow> int \<Rightarrow> int \<Rightarrow> int \<Rightarrow> int \<Rightarrow> ctable \<Rightarrow> int \<Rightarrow> bool
     \<Rightarrow> error + placement \<times> int set" where
  "placeSpiral_state rnd inimage originalRow originalCol XD YD table dimn allowDups =
     spiral_walk
       (\<lambda>row col cnt (tileLocations, placedTiles).
          placeBestTile rnd originalRow originalCol cnt (XD * YD) inimage allowDups
            tileLocations placedTiles table dimn row col)
       XD YD (Map.empty, {})"

definition placeSpiral ::
  "(real \<Rightarrow> real) \<Rightarrow> image \<Rightarrow> int \<Rightarrow> int \<Rightarrow> int \<Rightarrow> int \<Rightarrow> ctable \<Rightarrow> int \<Rightarrow> bool
     \<Rightarrow> error + placement \<times> nat" where
  "placeSpiral rnd inimage originalRow originalCol XD YD table dimn allowDups =
     (case placeSpiral_state rnd inimage originalRow originalCol XD YD table dimn allowDups of
        Inl e \<Rightarrow> Inl e
      | Inr (tileLocations, placedTiles) \<Rightarrow> Inr (tileLocations, card placedTiles))"

text \<open>
  The cells of the grid, as \<open>(row, col)\<close> keys, and the calls a scheduler makes when it
  places a given list of cells in order: the reference for what \<open>spiral_walk\<close> does.
\<close>

definition grid_cells :: "int \<Rightarrow> int \<Rightarrow> (int \<times> int) set" where
  "grid_cells XD YD = {(row, col). 0 \<le> row \<and> row < YD \<and> 0 \<le> col \<and> col < XD}"

fun place_cells ::
  "(int \<Rightarrow> int \<Rightarrow> nat \<Rightarrow> 's \<Rightarrow> error + 's) \<Rightarrow> (int \<times> int) list \<Rightarrow> nat \<Rightarrow> 's \<Rightarrow> error + 's" where
  "place_cells place [] cnt st = Inr st"
| "place_cells place ((row, col) # cells) cnt st =
     (case place row col cnt st of
        Inl e \<Rightarrow> Inl e
      | Inr st' \<Rightarrow> place_cells place cells (cnt + 1) st')"

text \<open>
  What the scan must deliver for a set \<open>C\<close> of candidates with distances \<open>f\<close>:
  nothing when there is no candidate, otherwise a candidate of least distance and, among
  those of least distance, the one of least index.
\<close>

definition is_best :: "nat set \<Rightarrow> (nat \<Rightarrow> real) \<Rightarrow> (int \<times> real) option \<Rightarrow> bool" where
  "is_best C f best =
     (case best of
        None \<Rightarrow> C = {}
      | Some (bi, bd) \<Rightarrow>
          (\<exists>i \<in> C. bi = int i \<and> bd = f i \<and> (\<forall>j \<in> C. f i \<le> f j \<and> (f j = f i \<longrightarrow> i \<le> j))))"

text \<open>
  The walker states met by the first \<open>n\<close> passes of the loop, and the cells that
  \<open>placeSpiral\<close> accepts, in the order of the walk.
\<close>

fun walk :: "nat \<Rightarrow> walker \<Rightarrow> walker list" where
  "walk 0 w = []"
| "walk (Suc n) w = w # walk n (spiral_step w)"

definition position :: "walker \<Rightarrow> int \<times> int" where
  "position w = (case w of (x, y, dx, dy) \<Rightarrow> (x, y))"

definition spiral_order :: "int \<Rightarrow> int \<Rightarrow> (int \<times> int) list" where
  "spiral_order XD YD =
     map (\<lambda>(x, y). (py_int (real_of_int (YD - 1) / 2) + y, py_int (real_of_int (XD - 1) / 2) + x))
       (filter (\<lambda>(x, y). in_grid XD YD x y)
          (map position (walk (nat ((max XD YD)\<^sup>2)) (0, 0, 0, - 1))))"

text \<open>
  The square of side \<open>n\<close> around the start of the walk, in walker coordinates, and the
  walker state after \<open>n * n\<close> passes.
\<close>

definition square :: "nat \<Rightarrow> (int \<times> int) set" where
  "square n = {(x, y). - int n < 2 * x \<and> 2 * x \<le> int n \<and> - int n < 2 * y \<and> 2 * y \<le> int n}"

definition corner :: "nat \<Rightarrow> walker" where
  "corner n =
     (if odd n then (int (n div 2) + 1, - int (n div 2), 1, 0)
      else (- int (n div 2), int (n div 2), - 1, 0))"

text \<open>
  The state of the scheduler after the cells \<open>placed_cells\<close> have been placed, for a
  table of \<open>N\<close> tiles: the dictionary has exactly these keys; \<open>placedTiles\<close> is the
  set of indices the dictionary records; the origin cell records the original tile and
  every other cell a table index; without duplicates no index is recorded twice.
\<close>

definition sched_inv ::
  "bool \<Rightarrow> int \<times> int \<Rightarrow> nat \<Rightarrow> (int \<times> int) list \<Rightarrow> placement \<Rightarrow> int set \<Rightarrow> bool" where
  "sched_inv allowDups origin N placed_cells tileLocations placedTiles \<longleftrightarrow>
     dom tileLocations = set placed_cells
     \<and> finite placedTiles
     \<and> placedTiles = {i. \<exists>c d. tileLocations c = Some (i, d)}
     \<and> (\<forall>c i d. tileLocations c = Some (i, d) \<longrightarrow>
            (if c = origin
             then i = MOSAIC_ORIGINAL_TILE_INDEX \<and> d = MOSAIC_ORIGINAL_TILE_DISTANCE
             else 0 \<le> i \<and> i < int N))
     \<and> (\<not> allowDups \<longrightarrow>
            (\<forall>c c' i d d'. tileLocations c = Some (i, d) \<and> tileLocations c' = Some (i, d')
                \<longrightarrow> c = c'))
     \<and> card (placedTiles - {MOSAIC_ORIGINAL_TILE_INDEX})
           \<le> length (filter (\<lambda>c. c \<noteq> origin) placed_cells)"

section \<open>catalog.py: colours\<close>

text \<open>
  A \<open>for\<close> loop whose body may raise: the body gets the loop variable and the state
  and the first error ends the loop.
\<close>

fun for_each :: "('a \<Rightarrow> 's \<Rightarrow> error + 's) \<Rightarrow> 'a list \<Rightarrow> 's \<Rightarrow> error + 's" where
  "for_each body [] st = Inr st"
| "for_each body (v # vs) st =
     (case body v st of Inl e \<Rightarrow> Inl e | Inr st' \<Rightarrow> for_each body vs st')"

text \<open>
  The state of \<open>colours\<close> is \<open>(redval, greenval, blueval, section, count)\<close>. The body
  of the two inner loops reads the pixel at \<open>(iLoc, jLoc)\<close> and adds it to the sums of
  the current section; writing a list at an index beyond its end raises IndexError.
\<close>

type_synonym colours_state = "int list \<times> int list \<times> int list \<times> nat \<times> nat"

definition colours_pixel :: "image \<Rightarrow> int \<Rightarrow> int \<Rightarrow> colours_state \<Rightarrow> error + colours_state" where
  "colours_pixel im iLoc jLoc st =
     (case st of (redval, greenval, blueval, section, count) \<Rightarrow>
        (case getpixel im (iLoc, jLoc) of
           Inl e \<Rightarrow> Inl e
         | Inr (r, g, b) \<Rightarrow>
             if section < length redval \<and> section < length greenval \<and> section < length blueval
             then Inr (redval[section := redval ! section + r],
                       greenval[section := greenval ! section + g],
                       blueval[section := blueval ! section + b],
                       section, count + 1)
             else Inl IndexError))"

text \<open>
  One pass of the loop over \<open>y\<close>: the offsets \<open>int(x * width / dim)\<close> and
  \<open>int(y * height / dim)\<close>, the loops over \<open>range(int(width/dim))\<close> and
  \<open>range(int(height/dim))\<close>, then the three roundings \<open>round(redval[section] / count)\<close>,
  which raise ZeroDivisionError when no pixel was counted.
\<close>

definition colours_cell :: "image \<Rightarrow> int \<Rightarrow> nat \<Rightarrow> nat \<Rightarrow> colours_state \<Rightarrow> error + colours_state" where
  "colours_cell im dimn x y st =
     (let iOffset = py_int (real_of_int (int x * width im) / real_of_int dimn);
          jOffset = py_int (real_of_int (int y * height im) / real_of_int dimn)
      in case for_each
                (\<lambda>i. for_each (\<lambda>j. colours_pixel im (int i + iOffset) (int j + jOffset))
                        (py_range (py_int (real_of_int (height im) / real_of_int dimn))))
                (py_range (py_int (real_of_int (width im) / real_of_int dimn))) st of
           Inl e \<Rightarrow> Inl e
         | Inr (redval, greenval, blueval, section, count) \<Rightarrow>
             if \<not> (section < length redval \<and> section < length greenval
                     \<and> section < length blueval)
             then Inl IndexError
             else if count = 0 then Inl ZeroDivisionError
             else Inr (redval[section := py_round (real_of_int (redval ! section) / real count)],
                       greenval[section := py_round (real_of_int (greenval ! section) / real count)],
                       blueval[section := py_round (real_of_int (blueval ! section) / real count)],
                       section + 1, 0))"

definition colours :: "image \<Rightarrow> int \<Rightarrow> error + colours" where
  "colours im dimn =
     (case for_each (\<lambda>x. for_each (\<lambda>y. colours_cell im dimn x y) (py_range dimn))
             (py_range dimn)
             (replicate (nat (dimn * dimn)) 0, replicate (nat (dimn * dimn)) 0,
              replicate (nat (dimn * dimn)) 0, 0, 0) of
        Inl e \<Rightarrow> Inl e
      | Inr (redval, greenval, blueval, section, count) \<Rightarrow> Inr (redval, greenval, blueval))"

text \<open>
  The summary as a closed formula, for comparison with the loops. Cell \<open>(x, y)\<close> of the grid covers the
  pixel columns from \<open>x * width div dim\<close> on and the pixel rows from
  \<open>y * height div dim\<close> on, \<open>width div dim\<close> columns and \<open>height div dim\<close> rows;
  its value in a channel is the rounded mean of that channel over these pixels. The
  cells are listed with \<open>x\<close> in the outer and \<open>y\<close> in the inner position.
\<close>

definition cell_pixels :: "image \<Rightarrow> int \<Rightarrow> nat \<Rightarrow> nat \<Rightarrow> (int \<times> int) list" where
  "cell_pixels im dimn x y =
     [(int x * width im div dimn + int i, int y * height im div dimn + int j).
        i \<leftarrow> [0..<nat (width im div dimn)], j \<leftarrow> [0..<nat (height im div dimn)]]"

definition channel_mean :: "(rgb \<Rightarrow> int) \<Rightarrow> image \<Rightarrow> (int \<times> int) list \<Rightarrow> int" where
  "channel_mean ch im ps =
     py_round (real_of_int (\<Sum>(i, j)\<leftarrow>ps. ch (pixel im i j)) / real (length ps))"

definition red :: "rgb \<Rightarrow> int" where "red c = fst c"
definition green :: "rgb \<Rightarrow> int" where "green c = fst (snd c)"
definition blue :: "rgb \<Rightarrow> int" where "blue c = snd (snd c)"

definition grid_sections :: "int \<Rightarrow> (nat \<times> nat) list" where
  "grid_sections dimn = [(x, y). x \<leftarrow> [0..<nat dimn], y \<leftarrow> [0..<nat dimn]]"

definition cell_mean :: "(rgb \<Rightarrow> int) \<Rightarrow> image \<Rightarrow> int \<Rightarrow> nat \<times> nat \<Rightarrow> int" where
  "cell_mean ch im dimn c = (case c of (x, y) \<Rightarrow> channel_mean ch im (cell_pixels im dimn x y))"

definition summary :: "image \<Rightarrow> int \<Rightarrow> colours" where
  "summary im dimn =
     (map (cell_mean red im dimn) (grid_sections dimn),
      map (cell_mean green im dimn) (grid_sections dimn),
      map (cell_mean blue im dimn) (grid_sections dimn))"

section \<open>mosaic.py: metric\<close>

text \<open>
  The state of the pixel loop of \<open>metric\<close> is \<open>(dist, same, max, cnt)\<close>, written
  \<open>(dsum, same, maxd, cnt)\<close>. PIL's \<open>resize\<close> is outside the repository and is a
  parameter. The normalising factor is \<open>math.sqrt(3 * 256*256)\<close>.
\<close>

definition metric_factor :: real where
  "metric_factor = sqrt (3 * 256 * 256)"

definition metric_pixel ::
  "image \<Rightarrow> image \<Rightarrow> int \<Rightarrow> int \<Rightarrow> real \<times> nat \<times> real \<times> nat \<Rightarrow> error + real \<times> nat \<times> real \<times> nat" where
  "metric_pixel oImage mImage x y st =
     (case st of (dsum, same, maxd, cnt) \<Rightarrow>
        (case getpixel oImage (x, y) of
           Inl e \<Rightarrow> Inl e
         | Inr (r1, g1, b1) \<Rightarrow>
             (case getpixel mImage (x, y) of
                Inl e \<Rightarrow> Inl e
              | Inr (r2, g2, b2) \<Rightarrow>
                  (let rdist = \<bar>r1 - r2\<bar>; gdist = \<bar>g1 - g2\<bar>; bdist = \<bar>b1 - b2\<bar>;
                       d = sqrt (real_of_int (rdist * rdist + gdist * gdist + bdist * bdist))
                   in if d = 0 then Inr (dsum, same + 1, maxd, cnt + 1)
                      else (let normD = d / metric_factor
                            in Inr (dsum + normD, same,
                                    (if maxd < normD then normD else maxd), cnt + 1))))))"

definition metric :: "(image \<Rightarrow> int \<times> int \<Rightarrow> image) \<Rightarrow> image \<Rightarrow> image \<Rightarrow> error + real" where
  "metric resize original mosaic_image =
     (let oWidth = width original; oHeight = height original;
          mWidth = width mosaic_image; mHeight = height mosaic_image
      in if \<not> oWidth \<le> mWidth then Inl AssertionError
         else if \<not> oHeight \<le> mHeight then Inl AssertionError
         else
           (let oImage = resize original (mWidth, mHeight)
            in case for_each
                      (\<lambda>x. for_each (\<lambda>y. metric_pixel oImage mosaic_image (int x) (int y))
                              (py_range mHeight))
                      (py_range mWidth) (0, 0, 0, 0) of
                 Inl e \<Rightarrow> Inl e
               | Inr (dsum, same, maxd, cnt) \<Rightarrow>
                   if cnt = 0 then Inl ZeroDivisionError else Inr (dsum / real cnt)))"

text \<open>
  The percentage \<open>mosaic\<close> prints: \<open>percent = (1 - metricAvg) * 100.0\<close>.
\<close>

definition metric_percent ::
  "(image \<Rightarrow> int \<times> int \<Rightarrow> image) \<Rightarrow> image \<Rightarrow> image \<Rightarrow> error + real" where
  "metric_percent resize newImage justMosaic =
     (case metric resize newImage justMosaic of
        Inl e \<Rightarrow> Inl e
      | Inr metricAvg \<Rightarrow> Inr ((1 - metricAvg) * 100))"

text \<open>
  The similarity in the words of the specification: the per-pixel Euclidean distance
  between the resized source and the mosaic, each divided by \<open>sqrt(3 * 255^2)\<close>,
  averaged over the pixels of the mosaic, as \<open>(1 - average) * 100\<close>.
\<close>

definition similarity_spec :: "image \<Rightarrow> image \<Rightarrow> real" where
  "similarity_spec oImage mImage =
     (1 - (\<Sum>(x, y)\<leftarrow>[(x, y). x \<leftarrow> [0..<nat (width mImage)], y \<leftarrow> [0..<nat (height mImage)]].
              (case pixel oImage (int x) (int y) of (r1, g1, b1) \<Rightarrow>
               case pixel mImage (int x) (int y) of (r2, g2, b2) \<Rightarrow>
                 sqrt (real_of_int ((r1 - r2)\<^sup>2 + (g1 - g2)\<^sup>2 + (b1 - b2)\<^sup>2))
                   / sqrt (3 * 255\<^sup>2)))
            / real (nat (width mImage) * nat (height mImage))) * 100"

section \<open>mosaic.py: checkFill and the layout of mosaic\<close>

text \<open>
  The constant \<open>INCHES2MM = 25.4\<close> is the float nearest to 25.4. In \<open>checkFill\<close>
  the two divisions are float divisions.
\<close>

definition THUMB_SIZE :: int where "THUMB_SIZE = 840"
definition DPI :: int where "DPI = 300"
definition INCHES2MM :: "(real \<Rightarrow> real) \<Rightarrow> real" where "INCHES2MM rnd = rnd (254 / 10)"

definition checkFill :: "(real \<Rightarrow> real) \<Rightarrow> int \<Rightarrow> int \<Rightarrow> int \<Rightarrow> int \<times> int" where
  "checkFill rnd pagei imagei dpi =
     (let idiff = pagei - imagei;
          ib = py_int (rnd (real_of_int idiff / 2));
          ie = (if idiff mod 2 \<noteq> 0 then 1 else 0);
          ibp = py_round (rnd (real_of_int (ib * dpi) / INCHES2MM rnd));
          iep = py_round (rnd (real_of_int (ie * dpi) / INCHES2MM rnd))
      in (ibp, iep))"

text \<open>
  The tile counts of \<open>mosaic\<close>, from the assertion on the canvas to \<open>ratio = XD/YD\<close>.
  The divisions are true divisions, rounded, and raise ZeroDivisionError on a zero
  divisor; \<open>outY*origRatio\<close> is a float product; \<open>imsize\<close> is \<open>newImage.size\<close>, the
  size of the image being mosaicked.
\<close>

definition tile_counts ::
  "(real \<Rightarrow> real) \<Rightarrow> int \<times> int \<Rightarrow> int \<Rightarrow> int \<Rightarrow> int \<times> int \<Rightarrow> error + int \<times> int" where
  "tile_counts rnd canvas margin tilemm imsize =
     (if \<not> fst canvas < snd canvas then Inl AssertionError
      else
        (let pagesize = (fst canvas - 2 * margin, snd canvas - 2 * margin)
         in if tilemm = 0 then Inl ZeroDivisionError
            else
              (let outX = rnd (real_of_int (fst pagesize) / real_of_int tilemm);
                   outY = rnd (real_of_int (snd pagesize) / real_of_int tilemm)
               in if outY = 0 then Inl ZeroDivisionError
                  else
                    (let outRatio = rnd (outX / outY)
                     in case imsize of (origX, origY) \<Rightarrow>
                          if origY = 0 then Inl ZeroDivisionError
                          else
                            (let origRatio = rnd (real_of_int origX / real_of_int origY)
                             in case (if origRatio < outRatio
                                      then Inr (py_int (rnd (outY * origRatio)), py_int outY)
                                      else if origRatio = 0 then Inl ZeroDivisionError
                                      else Inr (py_int outX, py_int (rnd (outX / origRatio)))) of
                                  Inl e \<Rightarrow> Inl e
                                | Inr (XD, YD) \<Rightarrow>
                                    if YD = 0 then Inl ZeroDivisionError else Inr (XD, YD))))))"

text \<open>
  The geometry \<open>mosaic\<close> derives next: the tile size in pixels, the check that the
  archive has enough images (the message and the early \<open>return\<close>), the cap of the
  image size by PIL's \<open>MAX_IMAGE_PIXELS\<close> (a parameter: the constant belongs to PIL), the
  two assertions, the margin fill and the final pixel and millimetre dimensions. The
  values \<open>pixelIndent\<close>, \<open>actualw\<close> and \<open>actualh\<close> of lines 538 to 540 are
  overwritten before any use and are left out. In \<open>bigwidth * INCHES2MM / DPI\<close> the
  product and the quotient are each rounded.
\<close>

record layout =
  tilesize :: int
  bigwidth :: int
  bigheight :: int
  xmm :: int
  ymm :: int
  leftOffset :: int
  topOffset :: int
  actualw :: int
  actualh :: int
  actualxmm :: int
  actualymm :: int

definition mosaic_layout ::
  "(real \<Rightarrow> real) \<Rightarrow> int \<times> int \<Rightarrow> int \<Rightarrow> int \<Rightarrow> int \<Rightarrow> nat \<Rightarrow> bool \<Rightarrow> int \<Rightarrow> error + layout" where
  "mosaic_layout rnd canvas tilemm XD YD table_len allowDups maxPixels =
     (let targetTilesize = py_round (rnd (real_of_int (DPI * tilemm) / INCHES2MM rnd));
          tilesize0 = (if targetTilesize < THUMB_SIZE then targetTilesize else THUMB_SIZE)
      in if int table_len < XD * YD \<and> \<not> allowDups then Inl NotEnoughImages
         else
           (case (if maxPixels < tilesize0 * XD \<or> maxPixels < tilesize0 * YD
                  then (if tilesize0 * YD < tilesize0 * XD
                        then (if XD = 0 then Inl ZeroDivisionError
                              else Inr (py_int (rnd (real_of_int maxPixels / real_of_int XD))))
                        else (if YD = 0 then Inl ZeroDivisionError
                              else Inr (py_int (rnd (real_of_int maxPixels / real_of_int YD)))))
                  else Inr tilesize0) of
              Inl e \<Rightarrow> Inl e
            | Inr ts \<Rightarrow>
                (let bw = ts * XD; bh = ts * YD;
                     xm = py_int (rnd (rnd (real_of_int bw * INCHES2MM rnd) / real_of_int DPI));
                     ym = py_int (rnd (rnd (real_of_int bh * INCHES2MM rnd) / real_of_int DPI))
                 in if \<not> xm \<le> fst canvas then Inl AssertionError
                    else if \<not> ym \<le> snd canvas then Inl AssertionError
                    else
                      (case checkFill rnd (fst canvas) xm DPI of
                         (widthFillPixels, widthExtraPixels) \<Rightarrow>
                       case checkFill rnd (snd canvas) ym DPI of
                         (heightFillPixels, heightExtraPixels) \<Rightarrow>
                         (let aw = bw + widthFillPixels * 2 + widthExtraPixels;
                              ah = bh + heightFillPixels * 2 + heightExtraPixels
                          in Inr \<lparr>tilesize = ts, bigwidth = bw, bigheight = bh, xmm = xm, ymm = ym,
                                  leftOffset = widthFillPixels, topOffset = heightFillPixels,
                                  actualw = aw, actualh = ah,
                                  actualxmm = py_round (rnd (rnd (real_of_int aw * INCHES2MM rnd)
                                                               / real_of_int DPI)),
                                  actualymm = py_round (rnd (rnd (real_of_int ah * INCHES2MM rnd)
                                                               / real_of_int DPI))\<rparr>)))))"

text \<open>
  \<open>newImage.resize((X, Y))\<close> is PIL's: it returns a copy of the image when the size
  is unchanged and raises ValueError (height and width must be > 0) when a side of the
  requested size is below 1; the resampling itself is the parameter \<open>resize\<close>.
\<close>

definition pil_resize ::
  "(image \<Rightarrow> int \<times> int \<Rightarrow> image) \<Rightarrow> image \<Rightarrow> int \<times> int \<Rightarrow> error + image" where
  "pil_resize resize im sz =
     (if sz = (width im, height im) then Inr im
      else if fst sz < 1 \<or> snd sz < 1 then Inl ValueError
      else Inr (resize im sz))"

text \<open>
  \<open>mosaic\<close> up to the end of the scheduling: the tile counts, the resized input image,
  the layout, the origin cell and \<open>placeSpiral\<close>. An \<open>Inl\<close> result is a run that ended
  before the output image was created or, for an error of \<open>placeSpiral\<close>, before any
  tile was pasted and the image saved; an \<open>Inr\<close> result carries what the compositing
  loop, the banner and \<open>save\<close> consume. The parameters \<open>originalImage\<close>, \<open>outname\<close>
  and \<open>alpha\<close> are used only there.
\<close>

definition mosaic ::
  "(real \<Rightarrow> real) \<Rightarrow> (image \<Rightarrow> int \<times> int \<Rightarrow> image) \<Rightarrow> image \<Rightarrow> bool \<Rightarrow> ctable \<Rightarrow> int \<Rightarrow> int \<times> int
     \<Rightarrow> int \<Rightarrow> bool \<Rightarrow> int \<Rightarrow> int \<Rightarrow> error + layout \<times> placement \<times> nat" where
  "mosaic rnd resize newImage rotated table tilemm canvas dimn allowDups margin maxPixels =
     (case tile_counts rnd canvas margin tilemm (width newImage, height newImage) of
        Inl e \<Rightarrow> Inl e
      | Inr (XD, YD) \<Rightarrow>
          (case pil_resize resize newImage (dimn * XD, dimn * YD) of
             Inl e \<Rightarrow> Inl e
           | Inr inimage \<Rightarrow>
               (case mosaic_layout rnd canvas tilemm XD YD (length table) allowDups maxPixels of
                  Inl e \<Rightarrow> Inl e
                | Inr plan \<Rightarrow>
                    (let originalRow = YD - 1;
                         originalCol = (if rotated then XD - 1 else 0)
                     in case placeSpiral rnd inimage originalRow originalCol XD YD table dimn
                               allowDups of
                          Inl e \<Rightarrow> Inl e
                        | Inr (tileLocations, nTilesUsed) \<Rightarrow>
                            Inr (plan, tileLocations, nTilesUsed)))))"

section \<open>Rounding to double precision\<close>

text \<open>
  How \<open>fl\<close> is evaluated: a positive number that a power of two scales into
  \<open>[2^52, 2^53)\<close> is rounded there to an integer, half to even, and scaled back; a square
  root is rounded by comparing squares.
\<close>

lemma fl_zero: "fl 0 = 0"
  by (simp add: fl_def)

lemma py_round_nonneg: "0 \<le> v \<Longrightarrow> 0 \<le> py_round v"
  by (auto simp add: py_round_def Let_def)

lemma fl_nonneg: "0 \<le> v \<Longrightarrow> 0 \<le> fl v"
  by (auto simp add: fl_def Let_def sgn_if intro!: mult_nonneg_nonneg py_round_nonneg)

lemma fl_not_neg: "0 \<le> v \<Longrightarrow> \<not> fl v < 0"
  using fl_nonneg[of v] by simp

lemma fl_eval:
  assumes "2 ^ 52 * 2 ^ b \<le> v * 2 ^ a" "v * 2 ^ a < 2 ^ 53 * 2 ^ b"
  shows "fl v = real_of_int (py_round (v * 2 ^ a / 2 ^ b)) * 2 ^ b / 2 ^ a"
proof -
  have pos: "0 < v"
  proof (rule ccontr)
    assume "\<not> 0 < v"
    then have "v * 2 ^ a \<le> 0" by (simp add: mult_le_0_iff)
    moreover have "(0 :: real) < 2 ^ 52 * 2 ^ b" by simp
    ultimately show False using assms(1) by linarith
  qed
  define e where "e = 52 + int b - int a"
  have p: "2 powr real_of_int (int b - int a) = 2 ^ b / (2 ^ a :: real)"
    by (simp add: powr_diff powr_realpow)
  have e0: "2 powr real_of_int e = 2 ^ 52 * 2 ^ b / (2 ^ a :: real)"
    using p by (simp add: e_def powr_add powr_diff powr_realpow)
  have e1: "2 powr real_of_int (e + 1) = 2 ^ 53 * 2 ^ b / (2 ^ a :: real)"
    using p by (simp add: e_def powr_add powr_diff powr_realpow)
  have "2 ^ 52 * 2 ^ b / 2 ^ a \<le> v"
    using assms(1) by (simp only: pos_divide_le_eq zero_less_power zero_less_numeral)
  moreover have "v < 2 ^ 53 * 2 ^ b / 2 ^ a"
    using assms(2) by (simp only: pos_less_divide_eq zero_less_power zero_less_numeral)
  ultimately have "2 powr real_of_int e \<le> v" "v < 2 powr real_of_int (e + 1)"
    by (simp_all only: e0 e1)
  then have "\<lfloor>log 2 v\<rfloor> = e"
    using pos floor_log_eq_powr_iff[of v 2 e] by simp
  then have fe: "\<lfloor>log 2 \<bar>v\<bar>\<rfloor> - 52 = int b - int a"
    using pos by (simp add: e_def)
  have "fl v = sgn v * real_of_int (py_round (\<bar>v\<bar> / 2 powr real_of_int (\<lfloor>log 2 \<bar>v\<bar>\<rfloor> - 52)))
                 * 2 powr real_of_int (\<lfloor>log 2 \<bar>v\<bar>\<rfloor> - 52)"
    using pos by (simp add: fl_def Let_def del: of_int_diff)
  also have "\<dots> = real_of_int (py_round (v / (2 ^ b / 2 ^ a))) * (2 ^ b / 2 ^ a)"
    unfolding fe p using pos by simp
  finally show ?thesis by simp
qed

lemma py_round_near:
  assumes "real_of_int m - 1 / 2 < v" "v < real_of_int m + 1 / 2"
  shows "py_round v = m"
proof -
  have "\<lfloor>v\<rfloor> = m \<or> \<lfloor>v\<rfloor> = m - 1"
    using assms by linarith
  then show ?thesis
  proof
    assume f: "\<lfloor>v\<rfloor> = m"
    then show ?thesis using assms by (simp add: py_round_def Let_def)
  next
    assume f: "\<lfloor>v\<rfloor> = m - 1"
    then show ?thesis using assms by (simp add: py_round_def Let_def)
  qed
qed

lemma sqrt_between:
  assumes "0 \<le> l" "l\<^sup>2 < x" "x < h\<^sup>2" "0 \<le> h"
  shows "l < sqrt x \<and> sqrt x < h"
proof -
  have "sqrt (l\<^sup>2) < sqrt x" using assms(2) by (simp only: real_sqrt_less_iff)
  moreover have "sqrt x < sqrt (h\<^sup>2)" using assms(3) by (simp only: real_sqrt_less_iff)
  ultimately show ?thesis using assms(1,4) by simp
qed

lemma fl_sqrt_eval:
  assumes "2 ^ 104 * 4 ^ b \<le> x * 4 ^ a" "x * 4 ^ a < 2 ^ 106 * 4 ^ b"
    and "(2 * real_of_int m - 1)\<^sup>2 * 4 ^ b < 4 * x * 4 ^ a"
    and "4 * x * 4 ^ a < (2 * real_of_int m + 1)\<^sup>2 * 4 ^ b"
    and "0 < m"
  shows "fl (sqrt x) = real_of_int m * 2 ^ b / 2 ^ a"
proof -
  define s where "s = sqrt x * 2 ^ a / 2 ^ b"
  have four: "(4 :: real) ^ n = (2 ^ n)\<^sup>2" for n
    by (simp add: power_even_eq power2_eq_square flip: power_mult_distrib)
  have x0: "0 \<le> x"
  proof (rule ccontr)
    assume "\<not> 0 \<le> x"
    then have "x * 4 ^ a < 0" by (simp add: mult_less_0_iff)
    moreover have "(0 :: real) \<le> 2 ^ 104 * 4 ^ b" by simp
    ultimately show False using assms(1) by linarith
  qed
  have sq: "sqrt (x * 4 ^ a / 4 ^ b) = s"
    by (simp add: s_def real_sqrt_mult real_sqrt_divide four)
  have "(2 ^ 52)\<^sup>2 \<le> x * 4 ^ a / 4 ^ b"
    using assms(1) by (simp add: pos_le_divide_eq)
  then have "sqrt ((2 ^ 52)\<^sup>2) \<le> sqrt (x * 4 ^ a / 4 ^ b)"
    by (simp only: real_sqrt_le_iff)
  then have lo: "2 ^ 52 \<le> s" by (simp add: sq)
  have "x * 4 ^ a / 4 ^ b < (2 ^ 53)\<^sup>2"
    using assms(2) by (simp add: pos_divide_less_eq)
  then have "sqrt (x * 4 ^ a / 4 ^ b) < sqrt ((2 ^ 53)\<^sup>2)"
    by (simp only: real_sqrt_less_iff)
  then have hi: "s < 2 ^ 53" by (simp add: sq)
  define q where "q = x * 4 ^ a / 4 ^ b"
  have h1: "(real_of_int m - 1 / 2)\<^sup>2 = (2 * real_of_int m - 1)\<^sup>2 / 4"
    and h2: "(real_of_int m + 1 / 2)\<^sup>2 = (2 * real_of_int m + 1)\<^sup>2 / 4"
    by (simp_all add: power2_eq_square field_simps)
  have "(2 * real_of_int m - 1)\<^sup>2 < 4 * q"
    using assms(3) by (simp add: q_def pos_less_divide_eq)
  then have "(real_of_int m - 1 / 2)\<^sup>2 < q"
    unfolding h1 by linarith
  then have "(real_of_int m - 1 / 2)\<^sup>2 < x * 4 ^ a / 4 ^ b"
    by (simp only: q_def)
  moreover have "4 * q < (2 * real_of_int m + 1)\<^sup>2"
    using assms(4) by (simp add: q_def pos_divide_less_eq)
  then have "q < (real_of_int m + 1 / 2)\<^sup>2"
    unfolding h2 by linarith
  then have "x * 4 ^ a / 4 ^ b < (real_of_int m + 1 / 2)\<^sup>2"
    by (simp only: q_def)
  moreover have "0 \<le> real_of_int m - 1 / 2" "0 \<le> real_of_int m + 1 / 2"
    using assms(5) by simp_all
  ultimately have "real_of_int m - 1 / 2 < s \<and> s < real_of_int m + 1 / 2"
    unfolding sq[symmetric] by (intro sqrt_between) simp_all
  then have r: "py_round s = m"
    by (simp add: py_round_near)
  have "fl (sqrt x) = real_of_int (py_round (sqrt x * 2 ^ a / 2 ^ b)) * 2 ^ b / 2 ^ a"
  proof (rule fl_eval)
    show "2 ^ 52 * 2 ^ b \<le> sqrt x * 2 ^ a"
      using lo by (simp add: s_def pos_le_divide_eq)
    show "sqrt x * 2 ^ a < 2 ^ 53 * 2 ^ b"
      using hi by (simp add: s_def pos_divide_less_eq)
  qed
  then show ?thesis using r by (simp add: s_def)
qed



section \<open>Signature distance\<close>

lemma distance_loop_fold:
  assumes "\<forall>p \<in> set ps. p < length r1 \<and> p < length r2 \<and> p < length g1 \<and> p < length g2
             \<and> p < length b1 \<and> p < length b2"
  shows "distance_loop rnd ps r1 g1 b1 r2 g2 b2 d0
           = Inr (foldl (\<lambda>dsum p. rnd (dsum + rnd (cell_dist (r1, g1, b1) (r2, g2, b2) p))) d0 ps)"
  using assms
proof (induction ps arbitrary: d0)
  case Nil
  then show ?case by simp
next
  case (Cons p ps)
  then show ?case
    by (simp add: cell_dist_def Let_def power2_eq_square del: of_int_add of_int_mult of_int_diff)
qed

lemma distance_signatures:
  assumes "is_signature dimn a" "is_signature dimn b"
  shows "distance rnd dimn (fst a) (fst (snd a)) (snd (snd a)) (fst b) (fst (snd b)) (snd (snd b))
           = Inr (summed rnd a b [0..<nat (dimn * dimn)])"
proof -
  obtain r1 g1 b1 where a: "a = (r1, g1, b1)" by (cases a) auto
  obtain r2 g2 b2 where b: "b = (r2, g2, b2)" by (cases b) auto
  show ?thesis
    using assms unfolding a b distance_def py_range_def summed_def
    by (simp add: distance_loop_fold is_signature_def)
qed

lemma tile_distance_signatures:
  assumes "is_signature dimn a" "is_signature dimn b" "dimn \<noteq> 0"
  shows "tile_distance rnd dimn a b
           = Inr (rnd (summed rnd a b [0..<nat (dimn * dimn)] / real_of_int (dimn * dimn)))"
proof -
  obtain r1 g1 b1 where a: "a = (r1, g1, b1)" by (cases a) auto
  obtain r2 g2 b2 where b: "b = (r2, g2, b2)" by (cases b) auto
  show ?thesis
    using distance_signatures[OF assms(1,2), of rnd] assms(3)
    by (simp add: tile_distance_def a b)
qed





lemma cell_dist_nonneg: "0 \<le> cell_dist a b p"
  by (cases a, cases b) (simp add: cell_dist_def)




text \<open>
  A rounded sum of rounded non-negative terms is non-negative when the rounding keeps
  signs, and it is zero only when every term is when the rounding sends no other number
  than 0 to 0. Both hold of \<open>fl\<close>.
\<close>

lemma summed_nonneg:
  assumes "\<And>v. 0 \<le> v \<Longrightarrow> 0 \<le> rnd v"
  shows "0 \<le> summed rnd a b ps"
proof -
  have "0 \<le> d0 \<Longrightarrow> 0 \<le> foldl (\<lambda>dsum p. rnd (dsum + rnd (cell_dist a b p))) d0 ps" for d0
    by (induction ps arbitrary: d0) (simp_all add: assms cell_dist_nonneg)
  then show ?thesis by (simp add: summed_def)
qed





section \<open>The tile matcher\<close>

lemma sample_loop_append:
  "sample_loop inimage xys (r, g, b) = Inr (r', g', b') \<Longrightarrow>
     length r' = length r + length xys \<and> length g' = length g + length xys
     \<and> length b' = length b + length xys"
proof (induction xys arbitrary: r g b)
  case Nil
  then show ?case by simp
next
  case (Cons xy xys)
  then show ?case
    by (fastforce split: sum.splits prod.splits)
qed

lemma length_sample_coords: "length (sample_coords dimn row col) = nat dimn * nat dimn"
  by (simp add: sample_coords_def py_range_def length_concat comp_def sum_list_triv)

lemma sample_is_signature:
  assumes "sample_loop inimage (sample_coords dimn row col) ([], [], []) = Inr sg" "0 \<le> dimn"
  shows "is_signature dimn sg"
proof -
  obtain r g b where sg: "sg = (r, g, b)" by (cases sg) auto
  have "nat dimn * nat dimn = nat (dimn * dimn)"
    using assms(2) by (simp add: nat_mult_distrib)
  then show ?thesis
    using sample_loop_append[OF assms(1)[unfolded sg]]
    by (simp add: sg is_signature_def length_sample_coords)
qed

lemma tile_distance_entry:
  assumes "is_signature dimn sg" "dimn \<noteq> 0" "is_signature dimn (snd (table ! j))"
  shows "tile_distance rnd dimn sg (snd (table ! j)) = Inr (entry_dist rnd dimn sg table j)"
  using tile_distance_signatures[OF assms(1,3,2), of rnd] by (simp add: entry_dist_def)

lemma is_best_step:
  assumes "is_best C f best" "\<forall>c \<in> C. c < j"
  shows "is_best (insert j C) f
           (case best of None \<Rightarrow> Some (int j, f j)
            | Some (bi, bd) \<Rightarrow> if f j < bd then Some (int j, f j) else best)"
proof (cases best)
  case None
  then show ?thesis using assms by (simp add: is_best_def)
next
  case (Some p)
  obtain bi bd where p: "p = (bi, bd)" by (cases p) auto
  from assms(1) Some p obtain i where i: "i \<in> C" "bi = int i" "bd = f i"
      "\<forall>k \<in> C. f i \<le> f k \<and> (f k = f i \<longrightarrow> i \<le> k)"
    by (auto simp: is_best_def)
  show ?thesis
  proof (cases "f j < bd")
    case True
    then have "\<forall>k \<in> insert j C. f j \<le> f k \<and> (f k = f j \<longrightarrow> j \<le> k)"
      using i by fastforce
    then show ?thesis
      using True Some p by (simp add: is_best_def)
  next
    case False
    then have "\<forall>k \<in> insert j C. f i \<le> f k \<and> (f k = f i \<longrightarrow> i \<le> k)"
      using i assms(2) by (auto simp: less_imp_le)
    then show ?thesis
      using False Some p i by (auto simp: is_best_def)
  qed
qed

lemma findBestTile_loop_best:
  assumes "is_signature dimn sg" "dimn \<noteq> 0"
    and "\<forall>j \<in> set js. j < length table \<and> is_signature dimn (snd (table ! j))"
    and "sorted_wrt (<) js" "\<forall>c \<in> C. \<forall>j \<in> set js. c < j"
    and "is_best C (entry_dist rnd dimn sg table) best"
  shows "\<exists>best'. findBestTile_loop rnd allowDups placedTiles table dimn sg js best = Inr best'
           \<and> is_best (C \<union> {j \<in> set js. allowDups \<or> int j \<notin> placedTiles})
                (entry_dist rnd dimn sg table) best'"
  using assms(3-)
proof (induction js arbitrary: C best)
  case Nil
  then show ?case by simp
next
  case (Cons j js)
  let ?f = "entry_dist rnd dimn sg table"
  let ?cand = "\<lambda>j. allowDups \<or> int j \<notin> placedTiles"
  have td: "tile_distance rnd dimn sg (snd (table ! j)) = Inr (?f j)"
    using Cons.prems(1) by (intro tile_distance_entry assms(1,2)) simp
  have rest: "\<forall>j \<in> set js. j < length table \<and> is_signature dimn (snd (table ! j))"
    "sorted_wrt (<) js"
    using Cons.prems by simp_all
  show ?case
  proof (cases "?cand j")
    case True
    let ?b = "case best of None \<Rightarrow> Some (int j, ?f j)
            | Some (bi, bd) \<Rightarrow> if ?f j < bd then Some (int j, ?f j) else best"
    have b: "is_best (insert j C) ?f ?b"
      using Cons.prems(3,4) by (intro is_best_step) auto
    have above: "\<forall>c \<in> insert j C. \<forall>k \<in> set js. c < k"
      using Cons.prems(2,3) by auto
    from Cons.IH[OF rest above b] obtain best' where
      "findBestTile_loop rnd allowDups placedTiles table dimn sg js ?b = Inr best'"
      "is_best (insert j C \<union> {j \<in> set js. ?cand j}) ?f best'"
      by blast
    moreover have "insert j C \<union> {j \<in> set js. ?cand j} = C \<union> {k \<in> set (j # js). ?cand k}"
      using True by auto
    ultimately show ?thesis
      using True td by (cases "table ! j") (auto simp del: is_best_def)
  next
    case False
    have above: "\<forall>c \<in> C. \<forall>k \<in> set js. c < k"
      using Cons.prems(3) by auto
    from Cons.IH[OF rest above Cons.prems(4)] obtain best' where
      "findBestTile_loop rnd allowDups placedTiles table dimn sg js best = Inr best'"
      "is_best (C \<union> {j \<in> set js. ?cand j}) ?f best'"
      by blast
    moreover have "C \<union> {j \<in> set js. ?cand j} = C \<union> {k \<in> set (j # js). ?cand k}"
      using False by auto
    ultimately show ?thesis
      using False by auto
  qed
qed

lemma findBestTile_scan:
  assumes "is_signature dimn sg" "dimn \<noteq> 0"
    and "\<forall>j < length table. is_signature dimn (snd (table ! j))"
  shows "\<exists>best. findBestTile_loop rnd allowDups placedTiles table dimn sg
                  (py_range (int (length table))) None = Inr best
           \<and> is_best (candidates allowDups placedTiles table) (entry_dist rnd dimn sg table) best"
proof -
  have "\<exists>best'. findBestTile_loop rnd allowDups placedTiles table dimn sg [0..<length table] None
                   = Inr best'
           \<and> is_best ({} \<union> {j \<in> set [0..<length table]. allowDups \<or> int j \<notin> placedTiles})
                (entry_dist rnd dimn sg table) best'"
    using assms(3)
    by (intro findBestTile_loop_best assms(1,2)) (simp_all add: is_best_def)
  moreover have "{} \<union> {j \<in> set [0..<length table]. allowDups \<or> int j \<notin> placedTiles}
                   = candidates allowDups placedTiles table"
    by (auto simp: candidates_def)
  ultimately show ?thesis
    by (simp add: py_range_def)
qed

lemma entry_dist_nonneg:
  assumes "\<And>v. 0 \<le> v \<Longrightarrow> 0 \<le> rnd v" "0 \<le> dimn"
  shows "0 \<le> entry_dist rnd dimn sg table j"
  unfolding entry_dist_def
  by (intro assms(1) divide_nonneg_nonneg summed_nonneg) (simp_all add: assms)

lemma findBestTile_result:
  assumes "1 \<le> dimn"
    and "\<forall>j < length table. is_signature dimn (snd (table ! j))"
    and "sample_loop inimage (sample_coords dimn row col) ([], [], []) = Inr sg"
    and "candidates allowDups placedTiles table \<noteq> {}"
  shows "\<exists>i \<in> candidates allowDups placedTiles table.
           findBestTile rnd inimage allowDups placedTiles table dimn row col
             = Inr (int i, entry_dist rnd dimn sg table i)
           \<and> tile_distance rnd dimn sg (snd (table ! i)) = Inr (entry_dist rnd dimn sg table i)
           \<and> (\<forall>j \<in> candidates allowDups placedTiles table.
                 entry_dist rnd dimn sg table i \<le> entry_dist rnd dimn sg table j
                 \<and> (entry_dist rnd dimn sg table j = entry_dist rnd dimn sg table i \<longrightarrow> i \<le> j))"
proof -
  have sg: "is_signature dimn sg" and nz: "dimn \<noteq> 0"
    using sample_is_signature[OF assms(3)] assms(1) by simp_all
  from findBestTile_scan[OF sg nz assms(2)] obtain best where
    best: "findBestTile_loop rnd allowDups placedTiles table dimn sg
             (py_range (int (length table))) None = Inr best"
      "is_best (candidates allowDups placedTiles table) (entry_dist rnd dimn sg table) best"
    by blast
  from best(2) assms(4) obtain i where
    i: "i \<in> candidates allowDups placedTiles table"
       "best = Some (int i, entry_dist rnd dimn sg table i)"
       "\<forall>j \<in> candidates allowDups placedTiles table.
           entry_dist rnd dimn sg table i \<le> entry_dist rnd dimn sg table j
           \<and> (entry_dist rnd dimn sg table j = entry_dist rnd dimn sg table i \<longrightarrow> i \<le> j)"
    by (auto simp: is_best_def split: option.splits)
  have "i < length table"
    using i(1) by (simp add: candidates_def)
  then have "tile_distance rnd dimn sg (snd (table ! i)) = Inr (entry_dist rnd dimn sg table i)"
    using assms(2) by (intro tile_distance_entry sg nz) simp
  moreover have "findBestTile rnd inimage allowDups placedTiles table dimn row col
                   = Inr (int i, entry_dist rnd dimn sg table i)"
    using assms(3) best(1) i(2) by (simp add: findBestTile_def)
  ultimately show ?thesis
    using i(1,3) by blast
qed

text \<open>
  C3. When the pixels of the cell have been sampled into a signature and the candidate
  set (every table index when duplicates are allowed, otherwise the indices not yet in
  \<open>placedTiles\<close>) is not empty, \<open>findBestTile\<close> returns a candidate whose distance to
  the signature, as the scan computes it under the rounding \<open>rnd\<close>, is least among the
  candidates, and among the candidates whose computed distance is that least value the
  one with the lowest table index; in particular no candidate with the same signature as
  the returned one has a lower index. This holds for every rounding, that of the code
  (\<open>fl\<close>) included. Candidates at the same distance over the real numbers need not have
  the same computed distance: the example after the theorem has two tiles with the same
  cells in another order, and the scan in double precision returns the second.
\<close>

theorem findBestTile_minimum:
  assumes "1 \<le> dimn"
    and "\<forall>j < length table. is_signature dimn (snd (table ! j))"
    and "sample_loop inimage (sample_coords dimn row col) ([], [], []) = Inr sg"
    and "candidates allowDups placedTiles table \<noteq> {}"
  shows "\<exists>i \<in> candidates allowDups placedTiles table.
           findBestTile rnd inimage allowDups placedTiles table dimn row col
             = Inr (int i, entry_dist rnd dimn sg table i)
           \<and> tile_distance rnd dimn sg (snd (table ! i)) = Inr (entry_dist rnd dimn sg table i)
           \<and> (\<forall>j \<in> candidates allowDups placedTiles table.
                 entry_dist rnd dimn sg table i \<le> entry_dist rnd dimn sg table j
                 \<and> (entry_dist rnd dimn sg table j = entry_dist rnd dimn sg table i \<longrightarrow> i \<le> j)
                 \<and> (snd (table ! j) = snd (table ! i) \<longrightarrow> i \<le> j))"
proof -
  from findBestTile_result[OF assms, of rnd] obtain i where
    i: "i \<in> candidates allowDups placedTiles table"
       "findBestTile rnd inimage allowDups placedTiles table dimn row col
          = Inr (int i, entry_dist rnd dimn sg table i)"
       "tile_distance rnd dimn sg (snd (table ! i)) = Inr (entry_dist rnd dimn sg table i)"
       "\<forall>j \<in> candidates allowDups placedTiles table.
           entry_dist rnd dimn sg table i \<le> entry_dist rnd dimn sg table j
           \<and> (entry_dist rnd dimn sg table j = entry_dist rnd dimn sg table i \<longrightarrow> i \<le> j)"
    by blast
  have "i \<le> j" if "j \<in> candidates allowDups placedTiles table" "snd (table ! j) = snd (table ! i)"
    for j
  proof -
    have "entry_dist rnd dimn sg table j = entry_dist rnd dimn sg table i"
      using that(2) by (simp add: entry_dist_def)
    then show ?thesis using i(4) that(1) by blast
  qed
  then show ?thesis
    using i by blast
qed

theorem findBestTile_minimum_witness:
  "(1::int) \<le> 1
   \<and> is_signature 1 (snd ([(''w0'', ([255], [255], [255])), (''b1'', ([0], [0], [0])),
                           (''w2'', ([255], [255], [255]))] ! 0))
   \<and> is_signature 1 (snd ([(''w0'', ([255], [255], [255])), (''b1'', ([0], [0], [0])),
                           (''w2'', ([255], [255], [255]))] ! 1))
   \<and> is_signature 1 (snd ([(''w0'', ([255], [255], [255])), (''b1'', ([0], [0], [0])),
                           (''w2'', ([255], [255], [255]))] ! 2))
   \<and> sample_loop \<lparr>width = 1, height = 1, pixel = \<lambda>x y. (255, 255, 255)\<rparr>
         (sample_coords 1 0 0) ([], [], []) = Inr ([255], [255], [255])
   \<and> 0 \<in> candidates False {} [(''w0'', ([255], [255], [255])), (''b1'', ([0], [0], [0])),
                                (''w2'', ([255], [255], [255]))]
   \<and> findBestTile fl \<lparr>width = 1, height = 1, pixel = \<lambda>x y. (255, 255, 255)\<rparr> False {}
         [(''w0'', ([255], [255], [255])), (''b1'', ([0], [0], [0])),
          (''w2'', ([255], [255], [255]))] 1 0 0 = Inr (0, 0)"
proof -
  let ?tbl = "[(''w0'', ([255], [255], [255])), (''b1'', ([0], [0], [0])),
              (''w2'', ([255::int], [255::int], [255::int]))]"
  let ?im = "\<lparr>width = 1, height = 1, pixel = \<lambda>x y. (255::int, 255::int, 255::int)\<rparr>"
  let ?sg = "([255::int], [255::int], [255::int])"
  have sigs: "\<forall>j < length ?tbl. is_signature 1 (snd (?tbl ! j))"
    by (simp add: is_signature_def less_Suc_eq)
  have smp: "sample_loop ?im (sample_coords 1 0 0) ([], [], []) = Inr ?sg"
    by (simp add: sample_coords_def py_range_def getpixel_def)
  have c0: "0 \<in> candidates False {} ?tbl"
    by (simp add: candidates_def)
  then have ne: "candidates False {} ?tbl \<noteq> {}"
    by blast
  have e0: "entry_dist fl 1 ?sg ?tbl 0 = 0"
    by (simp add: entry_dist_def summed_def cell_dist_def fl_zero)
  from findBestTile_minimum[OF _ sigs smp ne, of fl] obtain i where
    i: "findBestTile fl ?im False {} ?tbl 1 0 0 = Inr (int i, entry_dist fl 1 ?sg ?tbl i)"
       "\<forall>j \<in> candidates False {} ?tbl.
           entry_dist fl 1 ?sg ?tbl i \<le> entry_dist fl 1 ?sg ?tbl j
           \<and> (entry_dist fl 1 ?sg ?tbl j = entry_dist fl 1 ?sg ?tbl i \<longrightarrow> i \<le> j)"
    by auto
  have "0 \<le> entry_dist fl 1 ?sg ?tbl i"
    by (rule entry_dist_nonneg) (simp_all add: fl_nonneg)
  then have "entry_dist fl 1 ?sg ?tbl i = 0"
    using i(2) c0 e0 by fastforce
  moreover have "i = 0"
    using i(2) c0 e0 calculation by fastforce
  ultimately have "findBestTile fl ?im False {} ?tbl 1 0 0 = Inr (0, 0)"
    using i(1) by simp
  then show ?thesis
    using smp c0 by (simp add: is_signature_def)
qed

text \<open>
  A black cell of 2 by 2 pixels against two tiles that hold the same four cells in
  another order: the distances of the cells are \<open>sqrt 2, sqrt 2, 0, 1\<close> for tile 0 and
  \<open>0, 1, sqrt 2, sqrt 2\<close> for tile 1, so that over the real numbers both tiles are at
  distance \<open>(1 + 2 * sqrt 2) / 4\<close>. In double precision the sums differ in the last
  bit, the distances are 0.9571067811865476 and 0.9571067811865475, and the scan returns
  tile 1.
\<close>

theorem equal_distance_higher_index_counterexample:
  "findBestTile fl \<lparr>width = 2, height = 2, pixel = \<lambda>x y. (0, 0, 0)\<rparr> False {}
       [(''t0'', ([1, 1, 0, 1], [1, 1, 0, 0], [0, 0, 0, 0])),
        (''t1'', ([0, 1, 1, 1], [0, 0, 1, 1], [0, 0, 0, 0]))] 2 0 0
     = Inr (1, 2155212871552755 / 2251799813685248)
   \<and> tile_distance fl 2 ([0, 0, 0, 0], [0, 0, 0, 0], [0, 0, 0, 0])
         (snd (''t0'', ([1, 1, 0, 1], [1, 1, 0, 0], [0, 0, 0, 0])))
       = Inr (8620851486211021 / 9007199254740992)
   \<and> tile_distance fl 2 ([0, 0, 0, 0], [0, 0, 0, 0], [0, 0, 0, 0])
         (snd (''t1'', ([0, 1, 1, 1], [0, 0, 1, 1], [0, 0, 0, 0])))
       = Inr (2155212871552755 / 2251799813685248)
   \<and> tile_distance exact 2 ([0, 0, 0, 0], [0, 0, 0, 0], [0, 0, 0, 0])
         (snd (''t0'', ([1, 1, 0, 1], [1, 1, 0, 0], [0, 0, 0, 0])))
       = tile_distance exact 2 ([0, 0, 0, 0], [0, 0, 0, 0], [0, 0, 0, 0])
           (snd (''t1'', ([0, 1, 1, 1], [0, 0, 1, 1], [0, 0, 0, 0])))
   \<and> (2155212871552755 / 2251799813685248 :: real) < 8620851486211021 / 9007199254740992"
proof -
  let ?t0 = "([1, 1, 0, 1], [1, 1, 0, 0], [0 :: int, 0, 0, 0])"
  let ?t1 = "([0, 1, 1, 1], [0, 0, 1, 1], [0 :: int, 0, 0, 0])"
  let ?sg = "([0, 0, 0, 0], [0, 0, 0, 0], [0 :: int, 0, 0, 0])"
  let ?im = "\<lparr>width = 2, height = 2, pixel = \<lambda>x y. (0 :: int, 0 :: int, 0 :: int)\<rparr>"
  have s2: "fl (sqrt 2) = 6369051672525773 / 4503599627370496"
    using fl_sqrt_eval[where x = 2 and a = 52 and b = 0 and m = 6369051672525773] by simp
  have f1: "fl 1 = 1"
    by (subst fl_eval[where a = 52 and b = 0]) (simp_all add: py_round_def Let_def)
  have a1: "fl (6369051672525773 / 4503599627370496) = 6369051672525773 / 4503599627370496"
    by (subst fl_eval[where a = 52 and b = 0]) (simp_all add: py_round_def Let_def)
  have a2: "fl (6369051672525773 / 2251799813685248) = 6369051672525773 / 2251799813685248"
    by (subst fl_eval[where a = 51 and b = 0]) (simp_all add: py_round_def Let_def)
  have a4: "fl (8620851486211021 / 2251799813685248) = 8620851486211021 / 2251799813685248"
    by (subst fl_eval[where a = 51 and b = 0]) (simp_all add: py_round_def Let_def)
  have a5: "fl (8620851486211021 / 9007199254740992) = 8620851486211021 / 9007199254740992"
    by (subst fl_eval[where a = 53 and b = 0]) (simp_all add: py_round_def Let_def)
  have b3: "fl (10872651299896269 / 4503599627370496) = 2718162824974067 / 1125899906842624"
    by (subst fl_eval[where a = 51 and b = 0]) (simp_all add: py_round_def Let_def)
  have b4: "fl (17241702972422041 / 4503599627370496) = 2155212871552755 / 562949953421312"
    by (subst fl_eval[where a = 51 and b = 0]) (simp_all add: py_round_def Let_def)
  have b5: "fl (2155212871552755 / 2251799813685248) = 2155212871552755 / 2251799813685248"
    by (subst fl_eval[where a = 53 and b = 0]) (simp_all add: py_round_def Let_def)
  have d0: "tile_distance fl 2 ?sg ?t0 = Inr (8620851486211021 / 9007199254740992)"
    by (simp add: tile_distance_def distance_def py_range_def eval_nat_numeral Let_def
          fl_zero s2 f1 a1 a2 a4 a5)
  have d1: "tile_distance fl 2 ?sg ?t1 = Inr (2155212871552755 / 2251799813685248)"
    by (simp add: tile_distance_def distance_def py_range_def eval_nat_numeral Let_def
          fl_zero s2 f1 b3 b4 b5)
  have smp: "sample_loop ?im (sample_coords 2 0 0) ([], [], []) = Inr ?sg"
    by (simp add: sample_coords_def py_range_def getpixel_def eval_nat_numeral)
  have best: "findBestTile fl ?im False {} [(''t0'', ?t0), (''t1'', ?t1)] 2 0 0
                = Inr (1, 2155212871552755 / 2251799813685248)"
    by (simp add: findBestTile_def smp py_range_def eval_nat_numeral d0 d1)
  have ex: "tile_distance exact 2 ?sg ?t0 = tile_distance exact 2 ?sg ?t1"
    by (simp add: tile_distance_def distance_def py_range_def eval_nat_numeral Let_def exact_def)
  show ?thesis
    using best d0 d1 ex by simp
qed

section \<open>The spiral scheduler\<close>

lemma spiral_loop_place_cells:
  "spiral_loop place XD YD ic jc n w cnt st
     = place_cells place
         (map (\<lambda>(x, y). (jc + y, ic + x))
            (filter (\<lambda>(x, y). in_grid XD YD x y) (map position (walk n w)))) cnt st"
proof (induction n arbitrary: w cnt st)
  case 0
  then show ?case by simp
next
  case (Suc n)
  obtain x y dx dy where w: "w = (x, y, dx, dy)" by (cases w) auto
  show ?case
    by (simp add: w Suc position_def split: sum.splits)
qed

lemma spiral_walk_place_cells:
  "spiral_walk place XD YD st = place_cells place (spiral_order XD YD) 0 st"
  by (simp add: spiral_walk_def spiral_order_def spiral_loop_place_cells Let_def)

lemma walk_add: "walk (a + b) w = walk a w @ walk b ((spiral_step ^^ a) w)"
  by (induction a arbitrary: w) (simp_all add: funpow_swap1)

lemma length_walk: "length (walk n w) = n"
  by (induction n arbitrary: w) simp_all

lemma walk_line:
  assumes "\<forall>j < m. \<not> turns (x + int j * dx) (y + int j * dy)"
  shows "(spiral_step ^^ m) (x, y, dx, dy) = (x + int m * dx, y + int m * dy, dx, dy)
         \<and> map position (walk m (x, y, dx, dy))
             = map (\<lambda>j. (x + int j * dx, y + int j * dy)) [0..<m]"
  using assms
proof (induction m arbitrary: x y)
  case 0
  then show ?case by simp
next
  case (Suc m)
  have nt: "\<not> turns x y"
    using Suc.prems by force
  have st: "spiral_step (x, y, dx, dy) = (x + dx, y + dy, dx, dy)"
    using nt by (simp add: spiral_step_def)
  have "\<forall>j < m. \<not> turns (x + dx + int j * dx) (y + dy + int j * dy)"
  proof (intro allI impI)
    fix j assume "j < m"
    then have "\<not> turns (x + int (Suc j) * dx) (y + int (Suc j) * dy)"
      using Suc.prems by blast
    then show "\<not> turns (x + dx + int j * dx) (y + dy + int j * dy)"
      by (simp add: algebra_simps)
  qed
  from Suc.IH[OF this] show ?case
    by (simp add: st funpow_swap1 upt_conv_Cons map_Suc_upt[symmetric] algebra_simps
             position_def del: upt_Suc)
qed

lemma walk_segment:
  assumes "turns x y" "\<forall>j. 1 \<le> j \<and> j < m \<longrightarrow> \<not> turns (x - int j * dy) (y + int j * dx)" "1 \<le> m"
  shows "(spiral_step ^^ m) (x, y, dx, dy) = (x - int m * dy, y + int m * dx, - dy, dx)
         \<and> map position (walk m (x, y, dx, dy))
             = map (\<lambda>j. (x - int j * dy, y + int j * dx)) [0..<m]"
proof -
  obtain k where m: "m = Suc k"
    using assms(3) by (cases m) auto
  have st: "spiral_step (x, y, dx, dy) = (x - dy, y + dx, - dy, dx)"
    using assms(1) by (simp add: spiral_step_def)
  have "\<forall>j < k. \<not> turns (x - dy + int j * (- dy)) (y + dx + int j * dx)"
  proof (intro allI impI)
    fix j assume "j < k"
    then have "1 \<le> Suc j \<and> Suc j < m"
      using m by simp
    then have "\<not> turns (x - int (Suc j) * dy) (y + int (Suc j) * dx)"
      using assms(2) by blast
    then show "\<not> turns (x - dy + int j * (- dy)) (y + dx + int j * dx)"
      by (simp add: algebra_simps)
  qed
  from walk_line[OF this] show ?thesis
    by (simp add: m st funpow_swap1 upt_conv_Cons map_Suc_upt[symmetric] algebra_simps
             position_def del: upt_Suc)
qed


lemma in_image_up: "b \<in> (\<lambda>j. y0 + int j) ` {0..<m} \<longleftrightarrow> y0 \<le> b \<and> b < y0 + int m"
proof
  assume "b \<in> (\<lambda>j. y0 + int j) ` {0..<m}"
  then show "y0 \<le> b \<and> b < y0 + int m" by auto
next
  assume "y0 \<le> b \<and> b < y0 + int m"
  then have "b = y0 + int (nat (b - y0))" "nat (b - y0) \<in> {0..<m}" by auto
  then show "b \<in> (\<lambda>j. y0 + int j) ` {0..<m}" by (rule image_eqI)
qed

lemma in_image_down: "b \<in> (\<lambda>j. y0 - int j) ` {0..<m} \<longleftrightarrow> y0 - int m < b \<and> b \<le> y0"
proof
  assume "b \<in> (\<lambda>j. y0 - int j) ` {0..<m}"
  then show "y0 - int m < b \<and> b \<le> y0" by auto
next
  assume "y0 - int m < b \<and> b \<le> y0"
  then have "b = y0 - int (nat (y0 - b))" "nat (y0 - b) \<in> {0..<m}" by auto
  then show "b \<in> (\<lambda>j. y0 - int j) ` {0..<m}" by (rule image_eqI)
qed

lemma funpow_two:
  "(f ^^ a) w = w1 \<Longrightarrow> (f ^^ b) w1 = w2 \<Longrightarrow> (f ^^ (a + b)) w = w2"
  by (simp add: funpow_add add.commute[of a b])

lemma two_segments:
  assumes "(spiral_step ^^ a) w = w1
           \<and> map position (walk a w) = map f [0..<a]"
    and "(spiral_step ^^ b) w1 = w2
           \<and> map position (walk b w1) = map g [0..<b]"
  shows "(spiral_step ^^ (a + b)) w = w2
         \<and> set (map position (walk (a + b) w)) = f ` {0..<a} \<union> g ` {0..<b}"
  using assms by (simp add: walk_add funpow_two)

lemma ring_odd:
  fixes k :: nat
  defines "K \<equiv> int k"
  shows "(spiral_step ^^ (4 * k + 3)) (K + 1, - K, 1, 0) = (- K - 1, K + 1, - 1, 0)
         \<and> set (map position (walk (4 * k + 3) (K + 1, - K, 1, 0)))
             = {(x, y). (x = K + 1 \<and> - K \<le> y \<and> y \<le> K) \<or> (y = K + 1 \<and> - K \<le> x \<and> x \<le> K + 1)}"
proof -
  define a b where "a = 2 * k + 1" and "b = 2 * k + 2"
  have ab: "int a = 2 * K + 1" "int b = 2 * K + 2" "1 \<le> a" "1 \<le> b" "4 * k + 3 = a + b"
    by (simp_all add: a_def b_def K_def)
  have s1: "(spiral_step ^^ a) (K + 1, - K, 1, 0) = (K + 1 - int a * 0, - K + int a * 1, - 0, 1)
            \<and> map position (walk a (K + 1, - K, 1, 0))
                = map (\<lambda>j. (K + 1 - int j * 0, - K + int j * 1)) [0..<a]"
    using ab by (intro walk_segment) (auto simp: turns_def)
  have s2: "(spiral_step ^^ b) (K + 1, K + 1, 0, 1)
              = (K + 1 - int b * 1, K + 1 + int b * 0, - 1, 0)
            \<and> map position (walk b (K + 1, K + 1, 0, 1))
                = map (\<lambda>j. (K + 1 - int j * 1, K + 1 + int j * 0)) [0..<b]"
    using ab by (intro walk_segment) (auto simp: turns_def)
  have e1: "(K + 1 - int a * 0, - K + int a * 1, - 0, 1) = (K + 1, K + 1, 0::int, 1::int)"
    and e2: "(K + 1 - int b * 1, K + 1 + int b * 0, - 1, 0) = (- K - 1, K + 1, - 1::int, 0::int)"
    using ab by simp_all
  note ts = two_segments[OF s1[unfolded e1] s2[unfolded e2]]
  have f: "(\<lambda>j. (K + 1 - int j * 0, - K + int j * 1)) ` {0..<a}
             = {(x, y). x = K + 1 \<and> - K \<le> y \<and> y \<le> K}"
    using in_image_up[of _ "- K" a] ab by (auto simp: image_iff)
  have g: "(\<lambda>j. (K + 1 - int j * 1, K + 1 + int j * 0)) ` {0..<b}
             = {(x, y). y = K + 1 \<and> - K \<le> x \<and> x \<le> K + 1}"
    using in_image_down[of _ "K + 1" b] ab by (auto simp: image_iff)
  show ?thesis
    unfolding ab(5) using ts unfolding f g by auto
qed

lemma ring_even:
  fixes k :: nat
  defines "K \<equiv> int k"
  assumes "1 \<le> k"
  shows "(spiral_step ^^ (4 * k + 1)) (- K, K, - 1, 0) = (K + 1, - K, 1, 0)
         \<and> set (map position (walk (4 * k + 1) (- K, K, - 1, 0)))
             = {(x, y). (x = - K \<and> - K < y \<and> y \<le> K) \<or> (y = - K \<and> - K \<le> x \<and> x \<le> K)}"
proof -
  define a b where "a = 2 * k" and "b = 2 * k + 1"
  have ab: "int a = 2 * K" "int b = 2 * K + 1" "1 \<le> a" "1 \<le> b" "4 * k + 1 = a + b" "1 \<le> K"
    using assms(2) by (simp_all add: a_def b_def K_def)
  have s1: "(spiral_step ^^ a) (- K, K, - 1, 0) = (- K - int a * 0, K + int a * (- 1), - 0, - 1)
            \<and> map position (walk a (- K, K, - 1, 0))
                = map (\<lambda>j. (- K - int j * 0, K + int j * (- 1))) [0..<a]"
    using ab by (intro walk_segment) (auto simp: turns_def)
  have s2: "(spiral_step ^^ b) (- K, - K, 0, - 1)
              = (- K - int b * (- 1), - K + int b * 0, - (- 1), 0)
            \<and> map position (walk b (- K, - K, 0, - 1))
                = map (\<lambda>j. (- K - int j * (- 1), - K + int j * 0)) [0..<b]"
    using ab by (intro walk_segment) (auto simp: turns_def)
  have e1: "(- K - int a * 0, K + int a * (- 1), - 0, - 1) = (- K, - K, 0::int, - 1::int)"
    and e2: "(- K - int b * (- 1), - K + int b * 0, - (- 1), 0) = (K + 1, - K, 1::int, 0::int)"
    using ab by simp_all
  note ts = two_segments[OF s1[unfolded e1] s2[unfolded e2]]
  have f: "(\<lambda>j. (- K - int j * 0, K + int j * (- 1))) ` {0..<a}
             = {(x, y). x = - K \<and> - K < y \<and> y \<le> K}"
    using in_image_down[of _ K a] ab by (auto simp: image_iff)
  have g: "(\<lambda>j. (- K - int j * (- 1), - K + int j * 0)) ` {0..<b}
             = {(x, y). y = - K \<and> - K \<le> x \<and> x \<le> K}"
    using in_image_up[of _ "- K" b] ab by (auto simp: image_iff)
  show ?thesis
    unfolding ab(5) using ts unfolding f g by auto
qed


lemma square_odd:
  "square (2 * k + 1) = {(x, y). - int k \<le> x \<and> x \<le> int k \<and> - int k \<le> y \<and> y \<le> int k}"
proof -
  have a: "- int (2 * k + 1) < 2 * x \<longleftrightarrow> - int k \<le> x" for x :: int
    by presburger
  have b: "2 * x \<le> int (2 * k + 1) \<longleftrightarrow> x \<le> int k" for x :: int
    by presburger
  show ?thesis
    unfolding square_def by (simp only: a b)
qed

lemma square_even:
  "square (2 * k) = {(x, y). - int k < x \<and> x \<le> int k \<and> - int k < y \<and> y \<le> int k}"
proof -
  have a: "- int (2 * k) < 2 * x \<longleftrightarrow> - int k < x" for x :: int
    by presburger
  have b: "2 * x \<le> int (2 * k) \<longleftrightarrow> x \<le> int k" for x :: int
    by presburger
  show ?thesis
    unfolding square_def by (simp only: a b)
qed

lemma spiral_square:
  assumes "1 \<le> n"
  shows "(spiral_step ^^ (n * n)) (0, 0, 0, - 1) = corner n
         \<and> set (map position (walk (n * n) (0, 0, 0, - 1))) = square n"
  using assms
proof (induction n rule: nat_induct_at_least)
  case base
  have "spiral_step (0, 0, 0, - 1) = corner 1"
    by (simp add: spiral_step_def turns_def corner_def)
  moreover have "square 1 = {(0, 0)}"
    by (auto simp: square_def)
  ultimately show ?case by (simp add: position_def)
next
  case (Suc n)
  let ?s = "(0, 0, 0, - 1) :: walker"
  define r where "r = 2 * n + 1"
  have sq: "Suc n * Suc n = n * n + r" by (simp add: r_def)
  have IH1: "(spiral_step ^^ (n * n)) ?s = corner n"
    and IH2: "set (map position (walk (n * n) ?s)) = square n"
    using Suc.IH by simp_all
  have ring: "(spiral_step ^^ r) (corner n) = corner (Suc n)
              \<and> square n \<union> set (map position (walk r (corner n))) = square (Suc n)"
  proof (cases "odd n")
    case True
    then obtain k where k: "n = 2 * k + 1" by (auto elim: oddE)
    have c: "corner n = (int k + 1, - int k, 1, 0)"
         "corner (Suc n) = (- int k - 1, int k + 1, - 1, 0)" "r = 4 * k + 3"
      by (simp_all add: k corner_def r_def)
    have "Suc n = 2 * (k + 1)"
      using k by simp
    then have "square n \<union> {(x, y). (x = int k + 1 \<and> - int k \<le> y \<and> y \<le> int k)
                             \<or> (y = int k + 1 \<and> - int k \<le> x \<and> x \<le> int k + 1)}
            = square (Suc n)"
      unfolding k square_odd by (simp only: square_even) auto
    then show ?thesis
      unfolding c using ring_odd[of k] by simp
  next
    case False
    then obtain k where k: "n = 2 * k" by (auto elim: evenE)
    have k1: "1 \<le> k" using Suc.hyps k by simp
    have c: "corner n = (- int k, int k, - 1, 0)"
         "corner (Suc n) = (int k + 1, - int k, 1, 0)" "r = 4 * k + 1"
      by (simp_all add: k corner_def r_def)
    have "Suc n = 2 * k + 1"
      using k by simp
    then have "square n \<union> {(x, y). (x = - int k \<and> - int k < y \<and> y \<le> int k)
                             \<or> (y = - int k \<and> - int k \<le> x \<and> x \<le> int k)}
            = square (Suc n)"
      unfolding k square_even by (simp only: square_odd) auto
    then show ?thesis
      unfolding c using ring_even[OF k1] by simp
  qed
  show ?case
    unfolding sq walk_add map_append set_append IH1 IH2
    using ring funpow_two[OF IH1, of r "corner (Suc n)"] by simp
qed

lemma card_square: "card (square n) = n * n"
proof (cases "1 \<le> n")
  case True
  define p q where "p = (n - 1) div 2" and "q = n div 2"
  have pq: "p + q + 1 = n"
    using True unfolding p_def q_def by presburger
  have "square n = {- int p .. int q} \<times> {- int p .. int q}"
    using True unfolding p_def q_def by (auto simp: square_def)
  moreover have "card {- int p .. int q} = n"
    using pq by simp
  ultimately show ?thesis
    by (simp add: card_cartesian_product)
next
  case False
  then have "square n = {}" by (auto simp: square_def)
  then show ?thesis using False by simp
qed

lemma walk_square:
  "distinct (map position (walk (n * n) (0, 0, 0, - 1)))
   \<and> set (map position (walk (n * n) (0, 0, 0, - 1))) = square n"
proof (cases "1 \<le> n")
  case True
  have s: "set (map position (walk (n * n) (0, 0, 0, - 1))) = square n"
    using spiral_square[OF True] by simp
  have "card (set (map position (walk (n * n) (0, 0, 0, - 1))))
          = length (map position (walk (n * n) (0, 0, 0, - 1)))"
    unfolding s by (simp add: card_square length_walk)
  then show ?thesis
    using s card_distinct by blast
next
  case False
  then have "n = 0" by simp
  then show ?thesis by (simp add: square_def)
qed


lemma py_int_half: "0 \<le> a \<Longrightarrow> py_int (real_of_int a / 2) = a div 2"
  unfolding py_int_def by (simp add: floor_divide_of_int_eq[of a 2, simplified])

lemma in_grid_int:
  "in_grid XD YD x y \<longleftrightarrow> - XD < 2 * x \<and> 2 * x \<le> XD \<and> - YD < 2 * y \<and> 2 * y \<le> YD"
proof -
  have "- real_of_int a / 2 < real_of_int b \<longleftrightarrow> - a < 2 * b" for a b :: int
    by (simp add: divide_less_eq) linarith
  moreover have "real_of_int b \<le> real_of_int a / 2 \<longleftrightarrow> 2 * b \<le> a" for a b :: int
    by (simp add: le_divide_eq) linarith
  ultimately show ?thesis
    unfolding in_grid_def by simp
qed

lemma in_grid_square:
  assumes "in_grid XD YD x y"
  shows "(x, y) \<in> square (nat (max XD YD))"
  using assms unfolding in_grid_int square_def by auto

lemma shift_grid:
  assumes "1 \<le> XD" "1 \<le> YD"
  shows "(\<lambda>(x, y). ((YD - 1) div 2 + y, (XD - 1) div 2 + x)) ` {(x, y). in_grid XD YD x y}
           = grid_cells XD YD"
proof -
  have a: "- d < 2 * v \<and> 2 * v \<le> d \<longleftrightarrow> 0 \<le> (d - 1) div 2 + v \<and> (d - 1) div 2 + v < d"
    for d v :: int
    by presburger
  show ?thesis
  proof (intro set_eqI iffI)
    fix c assume "c \<in> (\<lambda>(x, y). ((YD - 1) div 2 + y, (XD - 1) div 2 + x)) ` {(x, y). in_grid XD YD x y}"
    then show "c \<in> grid_cells XD YD"
      using a[of XD] a[of YD] by (auto simp: in_grid_int grid_cells_def)
  next
    fix c assume c: "c \<in> grid_cells XD YD"
    obtain row col where rc: "c = (row, col)" by (cases c) auto
    let ?x = "col - (XD - 1) div 2" and ?y = "row - (YD - 1) div 2"
    have "in_grid XD YD ?x ?y"
      using c a[of XD ?x] a[of YD ?y] by (simp add: in_grid_int grid_cells_def rc)
    moreover have "c = (\<lambda>(x, y). ((YD - 1) div 2 + y, (XD - 1) div 2 + x)) (?x, ?y)"
      by (simp add: rc)
    ultimately show "c \<in> (\<lambda>(x, y). ((YD - 1) div 2 + y, (XD - 1) div 2 + x)) ` {(x, y). in_grid XD YD x y}"
      by blast
  qed
qed

lemma spiral_order_props:
  assumes "1 \<le> XD" "1 \<le> YD"
  shows "distinct (spiral_order XD YD)" "set (spiral_order XD YD) = grid_cells XD YD"
    "hd (spiral_order XD YD) = ((YD - 1) div 2, (XD - 1) div 2)"
proof -
  define n where "n = nat (max XD YD)"
  let ?track = "map position (walk (n * n) (0, 0, 0, - 1))"
  let ?shift = "\<lambda>(x, y). ((YD - 1) div 2 + y, (XD - 1) div 2 + x)"
  let ?ing = "\<lambda>(x, y). in_grid XD YD x y"
  have n: "nat ((max XD YD)\<^sup>2) = n * n" "1 \<le> n"
    using assms by (simp_all add: n_def power2_eq_square nat_mult_distrib)
  have c: "py_int (real_of_int (XD - 1) / 2) = (XD - 1) div 2"
          "py_int (real_of_int (YD - 1) / 2) = (YD - 1) div 2"
    using assms by (simp_all only: py_int_half diff_ge_0_iff_ge)
  have so: "spiral_order XD YD = map ?shift (filter ?ing ?track)"
    unfolding spiral_order_def c n ..
  have tr: "distinct ?track" "set ?track = square n"
    using walk_square[of n] by simp_all
  have inj: "inj_on ?shift A" for A
    by (auto simp: inj_on_def)
  show "distinct (spiral_order XD YD)"
    unfolding so using tr(1) by (simp add: distinct_map inj)
  have "set (filter ?ing ?track) = {(x, y). in_grid XD YD x y}"
    using tr(2) in_grid_square[of XD YD] by (auto simp: n_def)
  then show "set (spiral_order XD YD) = grid_cells XD YD"
    unfolding so set_map using shift_grid[OF assms] by simp
  obtain m where m: "n * n = Suc m"
    using n(2) by (cases "n * n") auto
  have "in_grid XD YD 0 0"
    using assms by (simp add: in_grid_int)
  then show "hd (spiral_order XD YD) = ((YD - 1) div 2, (XD - 1) div 2)"
    unfolding so m by (simp add: position_def)
qed

text \<open>
  C1. For every grid with \<open>XD \<ge> 1\<close> and \<open>YD \<ge> 1\<close>, the
  \<open>max(XD, YD)**2\<close> passes of the spiral loop call the placement once for each cell of
  a list \<open>spiral_order XD YD\<close>, in order; that list has no repetition, its cells are
  exactly the cells of the \<open>XD\<close> by \<open>YD\<close> grid, and its first cell is the grid centre
  \<open>(int((YD-1)/2), int((XD-1)/2))\<close>.
\<close>

theorem spiral_visits_each_cell_once:
  assumes "1 \<le> XD" "1 \<le> YD"
  shows "(\<forall>place st. spiral_walk place XD YD st = place_cells place (spiral_order XD YD) 0 st)
         \<and> distinct (spiral_order XD YD)
         \<and> set (spiral_order XD YD) = grid_cells XD YD
         \<and> hd (spiral_order XD YD)
             = (py_int (real_of_int (YD - 1) / 2), py_int (real_of_int (XD - 1) / 2))"
proof -
  have "py_int (real_of_int (XD - 1) / 2) = (XD - 1) div 2"
       "py_int (real_of_int (YD - 1) / 2) = (YD - 1) div 2"
    using assms by (simp_all only: py_int_half diff_ge_0_iff_ge)
  then show ?thesis
    using spiral_order_props[OF assms] by (simp only: spiral_walk_place_cells) simp
qed

theorem spiral_visits_each_cell_once_witness:
  "(1::int) \<le> 2 \<and> (1::int) \<le> 3
   \<and> spiral_walk (\<lambda>row col cnt st. Inr (st @ [(row, col)])) 2 3 []
       = Inr [(1, 0), (1, 1), (2, 1), (2, 0), (0, 0), (0, 1)]
   \<and> distinct (spiral_order 2 3)
   \<and> set (spiral_order 2 3) = grid_cells 2 3
   \<and> hd (spiral_order 2 3) = (1, 0)"
proof -
  have ev: "spiral_order 2 3 = [(1, 0), (1, 1), (2, 1), (2, 0), (0, 0), (0, 1)]"
    by (simp add: spiral_order_def eval_nat_numeral spiral_step_def turns_def position_def
          in_grid_def py_int_def)
  have t: "(\<forall>place (st :: (int \<times> int) list).
               spiral_walk place 2 3 st = place_cells place (spiral_order 2 3) 0 st)
           \<and> distinct (spiral_order 2 3)
           \<and> set (spiral_order 2 3) = grid_cells 2 3
           \<and> hd (spiral_order 2 3)
               = (py_int (real_of_int (3 - 1) / 2), py_int (real_of_int (2 - 1) / 2))"
    by (rule spiral_visits_each_cell_once) simp_all
  have w: "spiral_walk (\<lambda>row col cnt st. Inr (st @ [(row, col)])) 2 3 []
             = place_cells (\<lambda>row col cnt st. Inr (st @ [(row, col)])) (spiral_order 2 3) 0 []"
    using t by blast
  have "distinct (spiral_order 2 3) \<and> set (spiral_order 2 3) = grid_cells 2 3"
    using t by simp
  moreover have "hd (spiral_order 2 3) = (1, 0)"
    using t by (simp add: py_int_def)
  moreover have "spiral_walk (\<lambda>row col cnt st. Inr (st @ [(row, col)])) 2 3 []
                   = Inr [(1, 0), (1, 1), (2, 1), (2, 0), (0, 0), (0, 1)]"
    unfolding w ev by simp
  ultimately show ?thesis by simp
qed

section \<open>Placement and tile usage\<close>

lemma findBestTile_loop_index:
  assumes "findBestTile_loop rnd allowDups placedTiles table dimn sg js best = Inr (Some (i, d))"
  shows "best = Some (i, d) \<or> (\<exists>j \<in> set js. i = int j \<and> (allowDups \<or> int j \<notin> placedTiles))"
  using assms
proof (induction js arbitrary: best)
  case Nil
  then show ?case by simp
next
  case (Cons j js)
  show ?case
  proof (cases "allowDups \<or> int j \<notin> placedTiles")
    case True
    obtain name cols where tj: "table ! j = (name, cols)" by (cases "table ! j") auto
    from Cons.prems True tj obtain dj where
      run: "findBestTile_loop rnd allowDups placedTiles table dimn sg js
              (case best of None \<Rightarrow> Some (int j, dj)
               | Some (bi, bd) \<Rightarrow> if dj < bd then Some (int j, dj) else best) = Inr (Some (i, d))"
      by (auto split: sum.splits)
    from Cons.IH[OF run] True show ?thesis
      by (auto split: option.splits if_splits)
  next
    case False
    with Cons.prems have "findBestTile_loop rnd allowDups placedTiles table dimn sg js best
                            = Inr (Some (i, d))"
      by simp
    from Cons.IH[OF this] show ?thesis by auto
  qed
qed

lemma findBestTile_index:
  assumes "findBestTile rnd inimage allowDups placedTiles table dimn row col = Inr (i, d)"
  shows "0 \<le> i \<and> i < int (length table) \<and> (allowDups \<or> i \<notin> placedTiles)"
proof -
  from assms obtain sg where
    "findBestTile_loop rnd allowDups placedTiles table dimn sg (py_range (int (length table))) None
       = Inr (Some (i, d))"
    by (auto simp: findBestTile_def split: sum.splits option.splits)
  from findBestTile_loop_index[OF this] show ?thesis
    by (auto simp: py_range_def)
qed

lemma sched_inv_step:
  assumes inv: "sched_inv allowDups (originalRow, originalCol) (length table) placed_cells
                  tileLocations placedTiles"
    and new: "(row, col) \<notin> set placed_cells"
    and run: "placeBestTile rnd originalRow originalCol cnt nTiles inimage allowDups tileLocations
                placedTiles table dimn row col = Inr (tileLocations', placedTiles')"
  shows "sched_inv allowDups (originalRow, originalCol) (length table)
           (placed_cells @ [(row, col)]) tileLocations' placedTiles'"
proof -
  let ?o = "(originalRow, originalCol)" and ?c = "(row, col)"
  from run obtain i d where
    res: "tileLocations' = tileLocations(?c \<mapsto> (i, d))" "placedTiles' = insert i placedTiles"
    and val: "if ?c = ?o then i = MOSAIC_ORIGINAL_TILE_INDEX \<and> d = MOSAIC_ORIGINAL_TILE_DISTANCE
              else findBestTile rnd inimage allowDups placedTiles table dimn row col = Inr (i, d)"
    by (auto simp: placeBestTile_def split: if_splits sum.splits)
  have fresh: "tileLocations ?c = None"
    using inv new by (auto simp: sched_inv_def)
  have idx: "0 \<le> i \<and> i < int (length table) \<and> (allowDups \<or> i \<notin> placedTiles)" if "?c \<noteq> ?o"
  proof -
    have "findBestTile rnd inimage allowDups placedTiles table dimn row col = Inr (i, d)"
      using val that by (simp split: if_splits)
    then show ?thesis by (rule findBestTile_index)
  qed
  have fin: "finite placedTiles" and pl: "placedTiles = {i. \<exists>c d. tileLocations c = Some (i, d)}"
    and rng: "\<And>c i d. tileLocations c = Some (i, d) \<Longrightarrow>
            (if c = ?o then i = MOSAIC_ORIGINAL_TILE_INDEX \<and> d = MOSAIC_ORIGINAL_TILE_DISTANCE
             else 0 \<le> i \<and> i < int (length table))"
    and inj: "\<And>c c' i d d'. \<not> allowDups \<Longrightarrow> tileLocations c = Some (i, d)
                \<Longrightarrow> tileLocations c' = Some (i, d') \<Longrightarrow> c = c'"
    and crd: "card (placedTiles - {MOSAIC_ORIGINAL_TILE_INDEX})
                \<le> length (filter (\<lambda>c. c \<noteq> ?o) placed_cells)"
    using inv unfolding sched_inv_def by blast+
  have 1: "dom tileLocations' = set (placed_cells @ [?c])"
    using inv by (auto simp: res sched_inv_def)
  have 2: "finite placedTiles'"
    using fin by (simp add: res)
  have 3: "placedTiles' = {i. \<exists>c d. tileLocations' c = Some (i, d)}"
  proof (intro set_eqI iffI)
    fix j assume "j \<in> placedTiles'"
    then consider "j = i" | "j \<in> placedTiles" by (auto simp: res)
    then show "j \<in> {i. \<exists>c d. tileLocations' c = Some (i, d)}"
    proof cases
      case 1
      then have "tileLocations' ?c = Some (j, d)" by (simp add: res)
      then show ?thesis by blast
    next
      case 2
      then have "j \<in> {i. \<exists>c d. tileLocations c = Some (i, d)}" using pl by simp
      then obtain c e where ce: "tileLocations c = Some (j, e)" by blast
      then have "c \<noteq> ?c" using fresh by auto
      then have "tileLocations' c = Some (j, e)" using ce by (simp add: res)
      then show ?thesis by blast
    qed
  next
    fix j assume "j \<in> {i. \<exists>c d. tileLocations' c = Some (i, d)}"
    then obtain c e where ce: "tileLocations' c = Some (j, e)" by auto
    show "j \<in> placedTiles'"
    proof (cases "c = ?c")
      case True
      then show ?thesis using ce by (simp add: res)
    next
      case False
      then have "tileLocations c = Some (j, e)" using ce by (simp add: res)
      then have "j \<in> {i. \<exists>c d. tileLocations c = Some (i, d)}" by blast
      then have "j \<in> placedTiles" using pl by simp
      then show ?thesis by (simp add: res)
    qed
  qed
  have 4: "\<forall>c j e. tileLocations' c = Some (j, e) \<longrightarrow>
            (if c = ?o then j = MOSAIC_ORIGINAL_TILE_INDEX \<and> e = MOSAIC_ORIGINAL_TILE_DISTANCE
             else 0 \<le> j \<and> j < int (length table))"
  proof (intro allI impI)
    fix c j e assume a: "tileLocations' c = Some (j, e)"
    show "if c = ?o then j = MOSAIC_ORIGINAL_TILE_INDEX \<and> e = MOSAIC_ORIGINAL_TILE_DISTANCE
          else 0 \<le> j \<and> j < int (length table)"
    proof (cases "c = ?c")
      case True
      then have "j = i" "e = d" using a by (simp_all add: res)
      then show ?thesis using True val idx by (cases "?c = ?o") auto
    next
      case False
      then have "tileLocations c = Some (j, e)" using a by (simp add: res)
      then show ?thesis by (rule rng)
    qed
  qed
  have 5: "\<not> allowDups \<longrightarrow>
            (\<forall>c c' j e e'. tileLocations' c = Some (j, e) \<and> tileLocations' c' = Some (j, e')
                \<longrightarrow> c = c')"
  proof (intro impI allI)
    fix c c' j e e'
    assume nd: "\<not> allowDups"
      and a: "tileLocations' c = Some (j, e) \<and> tileLocations' c' = Some (j, e')"
    have other: "c1 = ?c" if "tileLocations' ?c = Some (j, e1)" "tileLocations' c1 = Some (j, e2)"
      for c1 e1 e2
    proof (rule ccontr)
      assume ne: "c1 \<noteq> ?c"
      then have old: "tileLocations c1 = Some (j, e2)" using that by (simp add: res)
      have ji: "j = i" using that by (simp add: res)
      show False
      proof (cases "?c = ?o")
        case True
        then have "j = MOSAIC_ORIGINAL_TILE_INDEX" using val ji by simp
        moreover have "c1 \<noteq> ?o" using ne True by simp
        ultimately show False
          using rng[OF old] by (simp add: MOSAIC_ORIGINAL_TILE_INDEX_def)
      next
        case False
        then have "i \<notin> placedTiles" using idx nd by simp
        moreover have "i \<in> {i. \<exists>c d. tileLocations c = Some (i, d)}" using old ji by blast
        ultimately show False using pl by simp
      qed
    qed
    show "c = c'"
    proof (cases "c = ?c")
      case True
      then show ?thesis using other[of e c' e'] a by simp
    next
      case False
      show ?thesis
      proof (cases "c' = ?c")
        case True
        then show ?thesis using other[of e' c e] a by simp
      next
        case c': False
        then show ?thesis
          using a False inj[OF nd, of c j e c' e'] by (simp add: res)
      qed
    qed
  qed
  have 6: "card (placedTiles' - {MOSAIC_ORIGINAL_TILE_INDEX})
             \<le> length (filter (\<lambda>c. c \<noteq> ?o) (placed_cells @ [?c]))"
  proof (cases "?c = ?o")
    case True
    then have "placedTiles' - {MOSAIC_ORIGINAL_TILE_INDEX}
                 = placedTiles - {MOSAIC_ORIGINAL_TILE_INDEX}"
      using val by (auto simp: res)
    then show ?thesis using crd True by simp
  next
    case False
    have "placedTiles' - {MOSAIC_ORIGINAL_TILE_INDEX}
            \<subseteq> insert i (placedTiles - {MOSAIC_ORIGINAL_TILE_INDEX})"
      by (auto simp: res)
    then have "card (placedTiles' - {MOSAIC_ORIGINAL_TILE_INDEX})
                 \<le> card (insert i (placedTiles - {MOSAIC_ORIGINAL_TILE_INDEX}))"
      using fin by (intro card_mono) auto
    also have "\<dots> \<le> Suc (card (placedTiles - {MOSAIC_ORIGINAL_TILE_INDEX}))"
      using fin by (simp add: card_insert_le_m1 card_insert_if)
    finally show ?thesis using crd False by simp
  qed
  show ?thesis
    unfolding sched_inv_def using 1 2 3 4 5 6 by blast
qed

lemma sched_inv_empty: "sched_inv allowDups origin N [] Map.empty {}"
  by (simp add: sched_inv_def)

lemma sched_inv_run:
  assumes "place_cells
             (\<lambda>row col cnt (tileLocations, placedTiles).
                placeBestTile rnd originalRow originalCol cnt nTiles inimage allowDups
                  tileLocations placedTiles table dimn row col)
             cells cnt (tileLocations, placedTiles) = Inr (tileLocations', placedTiles')"
    and "sched_inv allowDups (originalRow, originalCol) (length table) placed_cells
           tileLocations placedTiles"
    and "distinct (placed_cells @ cells)"
  shows "sched_inv allowDups (originalRow, originalCol) (length table) (placed_cells @ cells)
           tileLocations' placedTiles'"
  using assms
proof (induction cells arbitrary: cnt tileLocations placedTiles placed_cells)
  case Nil
  then show ?case by simp
next
  case (Cons c cells)
  obtain row col where c: "c = (row, col)" by (cases c) auto
  from Cons.prems(1) obtain tl pt where
    step: "placeBestTile rnd originalRow originalCol cnt nTiles inimage allowDups tileLocations
             placedTiles table dimn row col = Inr (tl, pt)"
    and rest: "place_cells
             (\<lambda>row col cnt (tileLocations, placedTiles).
                placeBestTile rnd originalRow originalCol cnt nTiles inimage allowDups
                  tileLocations placedTiles table dimn row col)
             cells (cnt + 1) (tl, pt) = Inr (tileLocations', placedTiles')"
    by (auto simp: c split: sum.splits)
  have new: "(row, col) \<notin> set placed_cells"
    using Cons.prems(3) by (simp add: c)
  have inv: "sched_inv allowDups (originalRow, originalCol) (length table)
               (placed_cells @ [(row, col)]) tl pt"
    by (rule sched_inv_step[OF Cons.prems(2) new step])
  have "distinct ((placed_cells @ [(row, col)]) @ cells)"
    using Cons.prems(3) by (simp add: c)
  from Cons.IH[OF rest inv this] show ?case
    by (simp add: c)
qed


lemma grid_cells_nonempty: "c \<in> grid_cells XD YD \<Longrightarrow> 1 \<le> XD \<and> 1 \<le> YD"
  by (auto simp: grid_cells_def)

lemma placeSpiral_state_inv:
  assumes "placeSpiral_state rnd inimage originalRow originalCol XD YD table dimn allowDups
             = Inr (tileLocations, placedTiles)"
    and "1 \<le> XD" "1 \<le> YD"
  shows "sched_inv allowDups (originalRow, originalCol) (length table) (spiral_order XD YD)
           tileLocations placedTiles"
proof -
  have "place_cells
          (\<lambda>row col cnt (tileLocations, placedTiles).
             placeBestTile rnd originalRow originalCol cnt (XD * YD) inimage allowDups
               tileLocations placedTiles table dimn row col)
          (spiral_order XD YD) 0 (Map.empty, {}) = Inr (tileLocations, placedTiles)"
    using assms(1) by (simp add: placeSpiral_state_def spiral_walk_place_cells)
  from sched_inv_run[OF this sched_inv_empty] spiral_order_props(1)[OF assms(2,3)]
  show ?thesis by simp
qed

text \<open>
  A grid of one column and two rows over a table of two tiles, with the origin cell at
  the bottom left as \<open>mosaic\<close> sets it, in double precision: the first cell takes
  the white tile, the origin cell takes the original image.
\<close>

lemma example_schedule:
  "placeSpiral_state fl
     \<lparr>width = 1, height = 2, pixel = \<lambda>x y. if y = 0 then (255, 255, 255) else (0, 0, 0)\<rparr>
     1 0 1 2 [(''white'', ([255], [255], [255])), (''black'', ([0], [0], [0]))] 1 False
   = Inr ([(0, 0) \<mapsto> (0, 0), (1, 0) \<mapsto> (- 1, 0)], {- 1, 0})"
  by (simp add: placeSpiral_state_def spiral_walk_def Let_def py_int_def eval_nat_numeral
        in_grid_def spiral_step_def turns_def placeBestTile_def findBestTile_def
        sample_coords_def py_range_def getpixel_def tile_distance_def distance_def
        MOSAIC_ORIGINAL_TILE_INDEX_def MOSAIC_ORIGINAL_TILE_DISTANCE_def
        fl_zero fl_nonneg fl_not_neg)


text \<open>
  C10. Whenever the scheduler returns and the reserved origin cell lies within the grid,
  that cell records the index \<open>-1\<close> with distance 0 and \<open>-1\<close> is a member of
  \<open>placedTiles\<close>, which therefore is not a set of valid table indices; the count
  \<open>placeSpiral\<close> returns is the number of distinct table indices placed plus one.
  The rounding of the distances plays no part: the statement holds for every \<open>rnd\<close>.
\<close>

theorem original_tile_counted_as_used:
  assumes "placeSpiral_state rnd inimage originalRow originalCol XD YD table dimn allowDups
             = Inr (tileLocations, placedTiles)"
    and "(originalRow, originalCol) \<in> grid_cells XD YD"
  shows "tileLocations (originalRow, originalCol)
           = Some (MOSAIC_ORIGINAL_TILE_INDEX, MOSAIC_ORIGINAL_TILE_DISTANCE)
         \<and> MOSAIC_ORIGINAL_TILE_INDEX \<in> placedTiles
         \<and> \<not> placedTiles \<subseteq> {i. 0 \<le> i \<and> i < int (length table)}
         \<and> placedTiles - {MOSAIC_ORIGINAL_TILE_INDEX}
             = {i. \<exists>c d. c \<noteq> (originalRow, originalCol) \<and> tileLocations c = Some (i, d)}
         \<and> placedTiles - {MOSAIC_ORIGINAL_TILE_INDEX} \<subseteq> {i. 0 \<le> i \<and> i < int (length table)}
         \<and> placeSpiral rnd inimage originalRow originalCol XD YD table dimn allowDups
             = Inr (tileLocations, card (placedTiles - {MOSAIC_ORIGINAL_TILE_INDEX}) + 1)"
proof -
  let ?o = "(originalRow, originalCol)"
  have xy: "1 \<le> XD" "1 \<le> YD"
    using grid_cells_nonempty[OF assms(2)] by simp_all
  have inv: "sched_inv allowDups ?o (length table) (spiral_order XD YD) tileLocations placedTiles"
    by (rule placeSpiral_state_inv[OF assms(1) xy])
  have "dom tileLocations = set (spiral_order XD YD)"
    using inv unfolding sched_inv_def by (elim conjE)
  then have dom: "dom tileLocations = grid_cells XD YD"
    by (simp only: spiral_order_props(2)[OF xy])
  have fin: "finite placedTiles"
    and pl: "placedTiles = {i. \<exists>c d. tileLocations c = Some (i, d)}"
    and rng: "\<And>c i d. tileLocations c = Some (i, d) \<Longrightarrow>
            (if c = ?o then i = MOSAIC_ORIGINAL_TILE_INDEX \<and> d = MOSAIC_ORIGINAL_TILE_DISTANCE
             else 0 \<le> i \<and> i < int (length table))"
    using inv unfolding sched_inv_def by blast+
  obtain i d where od: "tileLocations ?o = Some (i, d)"
    using dom assms(2) by fastforce
  have 1: "tileLocations ?o = Some (MOSAIC_ORIGINAL_TILE_INDEX, MOSAIC_ORIGINAL_TILE_DISTANCE)"
    using rng[OF od] od by simp
  then have "MOSAIC_ORIGINAL_TILE_INDEX \<in> {i. \<exists>c d. tileLocations c = Some (i, d)}"
    by blast
  then have 2: "MOSAIC_ORIGINAL_TILE_INDEX \<in> placedTiles"
    using pl by simp
  then have 3: "\<not> placedTiles \<subseteq> {i. 0 \<le> i \<and> i < int (length table)}"
    by (auto simp: MOSAIC_ORIGINAL_TILE_INDEX_def)
  have 4: "placedTiles - {MOSAIC_ORIGINAL_TILE_INDEX}
             = {i. \<exists>c d. c \<noteq> ?o \<and> tileLocations c = Some (i, d)}"
  proof (intro set_eqI iffI)
    fix j assume "j \<in> placedTiles - {MOSAIC_ORIGINAL_TILE_INDEX}"
    then have "j \<in> {i. \<exists>c d. tileLocations c = Some (i, d)}" "j \<noteq> MOSAIC_ORIGINAL_TILE_INDEX"
      using pl by simp_all
    then obtain c e where ce: "tileLocations c = Some (j, e)" by blast
    with rng[OF ce] \<open>j \<noteq> MOSAIC_ORIGINAL_TILE_INDEX\<close> have "c \<noteq> ?o" by auto
    with ce show "j \<in> {i. \<exists>c d. c \<noteq> ?o \<and> tileLocations c = Some (i, d)}" by blast
  next
    fix j assume "j \<in> {i. \<exists>c d. c \<noteq> ?o \<and> tileLocations c = Some (i, d)}"
    then obtain c e where ce: "c \<noteq> ?o" "tileLocations c = Some (j, e)" by blast
    then have "j \<in> {i. \<exists>c d. tileLocations c = Some (i, d)}" by blast
    then have "j \<in> placedTiles" using pl by simp
    moreover have "j \<noteq> MOSAIC_ORIGINAL_TILE_INDEX"
      using rng[OF ce(2)] ce(1) by (auto simp: MOSAIC_ORIGINAL_TILE_INDEX_def)
    ultimately show "j \<in> placedTiles - {MOSAIC_ORIGINAL_TILE_INDEX}" by simp
  qed
  have 5: "placedTiles - {MOSAIC_ORIGINAL_TILE_INDEX} \<subseteq> {i. 0 \<le> i \<and> i < int (length table)}"
  proof
    fix j assume "j \<in> placedTiles - {MOSAIC_ORIGINAL_TILE_INDEX}"
    then obtain c e where ce: "c \<noteq> ?o" "tileLocations c = Some (j, e)"
      unfolding 4 by blast
    then show "j \<in> {i. 0 \<le> i \<and> i < int (length table)}"
      using rng[OF ce(2)] by simp
  qed
  have "card placedTiles = card (placedTiles - {MOSAIC_ORIGINAL_TILE_INDEX}) + 1"
    using card_Suc_Diff1[OF fin 2] by simp
  then have 6: "placeSpiral rnd inimage originalRow originalCol XD YD table dimn allowDups
             = Inr (tileLocations, card (placedTiles - {MOSAIC_ORIGINAL_TILE_INDEX}) + 1)"
    using assms(1) by (simp add: placeSpiral_def)
  show ?thesis
    by (intro conjI 1 2 3 4 5 6)
qed

theorem original_tile_counted_as_used_witness:
  "placeSpiral_state fl
     \<lparr>width = 1, height = 2, pixel = \<lambda>x y. if y = 0 then (255, 255, 255) else (0, 0, 0)\<rparr>
     1 0 1 2 [(''white'', ([255], [255], [255])), (''black'', ([0], [0], [0]))] 1 False
   = Inr ([(0, 0) \<mapsto> (0, 0), (1, 0) \<mapsto> (- 1, 0)], {- 1, 0})
   \<and> (1, 0) \<in> grid_cells 1 2
   \<and> placeSpiral fl
     \<lparr>width = 1, height = 2, pixel = \<lambda>x y. if y = 0 then (255, 255, 255) else (0, 0, 0)\<rparr>
     1 0 1 2 [(''white'', ([255], [255], [255])), (''black'', ([0], [0], [0]))] 1 False
   = Inr ([(0, 0) \<mapsto> (0, 0), (1, 0) \<mapsto> (- 1, 0)], 2)"
proof -
  have g: "(1, 0) \<in> grid_cells 1 2"
    by (simp add: grid_cells_def)
  have c: "card ({- 1, 0} - {MOSAIC_ORIGINAL_TILE_INDEX}) + 1 = 2"
    by (simp add: MOSAIC_ORIGINAL_TILE_INDEX_def)
  show ?thesis
    using original_tile_counted_as_used[OF example_schedule g] example_schedule g
    by (simp only: c)
qed

section \<open>Scheduling without duplicates\<close>

lemma sample_loop_succeeds:
  assumes "\<forall>xy \<in> set xys. 0 \<le> fst xy \<and> fst xy < width inimage \<and> 0 \<le> snd xy \<and> snd xy < height inimage"
  shows "\<exists>sg. sample_loop inimage xys rgbs = Inr sg"
  using assms
proof (induction xys arbitrary: rgbs)
  case Nil
  show ?case by (rule exI[of _ rgbs]) simp
next
  case (Cons xy xys)
  obtain r g b where rgbs: "rgbs = (r, g, b)" by (cases rgbs) auto
  obtain x y where xy: "xy = (x, y)" by (cases xy) auto
  obtain rp gp bp where p: "pixel inimage x y = (rp, gp, bp)" by (cases "pixel inimage x y") auto
  have "getpixel inimage xy = Inr (rp, gp, bp)"
    using Cons.prems by (simp add: getpixel_def xy p)
  moreover have "\<exists>sg. sample_loop inimage xys (r @ [rp], g @ [gp], b @ [bp]) = Inr sg"
    using Cons.prems by (intro Cons.IH) simp
  ultimately show ?case
    by (simp add: rgbs)
qed

lemma sample_cell_succeeds:
  assumes "(row, col) \<in> grid_cells XD YD" "1 \<le> dimn"
    and "dimn * XD \<le> width inimage" "dimn * YD \<le> height inimage"
  shows "\<exists>sg. sample_loop inimage (sample_coords dimn row col) ([], [], []) = Inr sg"
proof (rule sample_loop_succeeds, intro ballI)
  fix xy assume "xy \<in> set (sample_coords dimn row col)"
  then obtain fx fy where f: "xy = (col * dimn + int fx, row * dimn + int fy)"
      "int fx < dimn" "int fy < dimn"
    by (auto simp: sample_coords_def py_range_def)
  have rc: "0 \<le> row" "row + 1 \<le> YD" "0 \<le> col" "col + 1 \<le> XD"
    using assms(1) by (simp_all add: grid_cells_def)
  have "(col + 1) * dimn \<le> XD * dimn" "(row + 1) * dimn \<le> YD * dimn"
    using rc assms(2) by (simp_all add: mult_right_mono)
  then have "col * dimn + int fx < dimn * XD" "row * dimn + int fy < dimn * YD"
    using f(2,3) by (simp_all add: algebra_simps)
  moreover have "0 \<le> col * dimn" "0 \<le> row * dimn"
    using rc assms(2) by simp_all
  ultimately show "0 \<le> fst xy \<and> fst xy < width inimage \<and> 0 \<le> snd xy \<and> snd xy < height inimage"
    using assms(3,4) by (simp add: f(1))
qed

lemma candidates_available:
  assumes "finite placedTiles" "card (placedTiles - {MOSAIC_ORIGINAL_TILE_INDEX}) < length table"
  shows "candidates False placedTiles table \<noteq> {}"
proof
  assume "candidates False placedTiles table = {}"
  then have all: "\<forall>j < length table. int j \<in> placedTiles"
    by (auto simp: candidates_def)
  have "int ` {0..<length table} \<subseteq> placedTiles - {MOSAIC_ORIGINAL_TILE_INDEX}"
    using all by (auto simp: MOSAIC_ORIGINAL_TILE_INDEX_def)
  then have "card (int ` {0..<length table}) \<le> card (placedTiles - {MOSAIC_ORIGINAL_TILE_INDEX})"
    using assms(1) by (intro card_mono) auto
  moreover have "card (int ` {0..<length table}) = length table"
    by (simp add: card_image)
  ultimately show False
    using assms(2) by simp
qed

lemma placeBestTile_succeeds:
  assumes inv: "sched_inv False (originalRow, originalCol) (length table) placed_cells
                  tileLocations placedTiles"
    and cell: "(row, col) \<in> grid_cells XD YD"
    and room: "(row, col) \<noteq> (originalRow, originalCol)
                 \<Longrightarrow> length (filter (\<lambda>c. c \<noteq> (originalRow, originalCol)) placed_cells) < length table"
    and static: "1 \<le> dimn" "\<forall>j < length table. is_signature dimn (snd (table ! j))"
       "dimn * XD \<le> width inimage" "dimn * YD \<le> height inimage"
  shows "\<exists>st. placeBestTile rnd originalRow originalCol cnt nTiles inimage False tileLocations
                placedTiles table dimn row col = Inr st"
proof (cases "(row, col) = (originalRow, originalCol)")
  case True
  then show ?thesis by (simp add: placeBestTile_def)
next
  case False
  have fin: "finite placedTiles"
    and crd: "card (placedTiles - {MOSAIC_ORIGINAL_TILE_INDEX})
                \<le> length (filter (\<lambda>c. c \<noteq> (originalRow, originalCol)) placed_cells)"
    using inv unfolding sched_inv_def by blast+
  have ne: "candidates False placedTiles table \<noteq> {}"
    using candidates_available[OF fin] crd room[OF False] by simp
  obtain sg where sg: "sample_loop inimage (sample_coords dimn row col) ([], [], []) = Inr sg"
    using sample_cell_succeeds[OF cell static(1,3,4)] by blast
  from findBestTile_result[OF static(1,2) sg ne] obtain i where
    "findBestTile rnd inimage False placedTiles table dimn row col = Inr (int i, entry_dist rnd dimn sg table i)"
    by blast
  then show ?thesis
    using False by (auto simp: placeBestTile_def)
qed

lemma place_cells_succeeds:
  assumes static: "1 \<le> dimn" "\<forall>j < length table. is_signature dimn (snd (table ! j))"
       "dimn * XD \<le> width inimage" "dimn * YD \<le> height inimage"
    and "sched_inv False (originalRow, originalCol) (length table) placed_cells
           tileLocations placedTiles"
    and "distinct (placed_cells @ cells)" "set cells \<subseteq> grid_cells XD YD"
    and "length (filter (\<lambda>c. c \<noteq> (originalRow, originalCol)) (placed_cells @ cells)) \<le> length table"
  shows "\<exists>st. place_cells
             (\<lambda>row col cnt (tileLocations, placedTiles).
                placeBestTile rnd originalRow originalCol cnt nTiles inimage False
                  tileLocations placedTiles table dimn row col)
             cells cnt (tileLocations, placedTiles) = Inr st"
  using assms(5-)
proof (induction cells arbitrary: cnt tileLocations placedTiles placed_cells)
  case Nil
  then show ?case by simp
next
  case (Cons c cells)
  let ?o = "(originalRow, originalCol)"
  obtain row col where c: "c = (row, col)" by (cases c) auto
  have cell: "(row, col) \<in> grid_cells XD YD" and new: "(row, col) \<notin> set placed_cells"
    using Cons.prems(2,3) by (simp_all add: c)
  have room: "length (filter (\<lambda>c. c \<noteq> ?o) placed_cells) < length table" if "(row, col) \<noteq> ?o"
    using Cons.prems(4) that by (simp add: c)
  from placeBestTile_succeeds[OF Cons.prems(1) cell room static] obtain st where
    step: "placeBestTile rnd originalRow originalCol cnt nTiles inimage False tileLocations
             placedTiles table dimn row col = Inr st"
    by blast
  obtain tl pt where st: "st = (tl, pt)" by (cases st) auto
  have inv: "sched_inv False ?o (length table) (placed_cells @ [(row, col)]) tl pt"
    by (rule sched_inv_step[OF Cons.prems(1) new step[unfolded st]])
  have "\<exists>st. place_cells
             (\<lambda>row col cnt (tileLocations, placedTiles).
                placeBestTile rnd originalRow originalCol cnt nTiles inimage False
                  tileLocations placedTiles table dimn row col)
             cells (cnt + 1) (tl, pt) = Inr st"
    using Cons.prems(2,3,4) by (intro Cons.IH[OF inv]) (simp_all add: c)
  then show ?case
    using step by (simp add: c st)
qed

lemma card_grid_cells: "card (grid_cells XD YD) = nat YD * nat XD"
proof -
  have "grid_cells XD YD = {0..<YD} \<times> {0..<XD}"
    by (auto simp: grid_cells_def)
  then show ?thesis
    by (simp add: card_cartesian_product)
qed

lemma placeSpiral_state_succeeds:
  assumes "1 \<le> dimn" "1 \<le> XD" "1 \<le> YD"
    and "\<forall>j < length table. is_signature dimn (snd (table ! j))"
    and "XD * YD = int (length table)"
    and "dimn * XD \<le> width inimage" "dimn * YD \<le> height inimage"
  shows "\<exists>st. placeSpiral_state rnd inimage originalRow originalCol XD YD table dimn False = Inr st"
proof -
  have d: "distinct (spiral_order XD YD)" and s: "set (spiral_order XD YD) = grid_cells XD YD"
    using spiral_order_props[OF assms(2,3)] by simp_all
  have "length (spiral_order XD YD) = card (grid_cells XD YD)"
    using distinct_card[OF d] s by simp
  also have "\<dots> = nat (XD * YD)"
    using assms(2,3) by (simp add: card_grid_cells nat_mult_distrib mult.commute)
  finally have len: "length (spiral_order XD YD) = length table"
    using assms(5) by simp
  have "length (filter (\<lambda>c. c \<noteq> (originalRow, originalCol)) ([] @ spiral_order XD YD))
          \<le> length table"
    using length_filter_le[of _ "spiral_order XD YD"] len by simp
  from place_cells_succeeds[OF assms(1,4,6,7) sched_inv_empty _ _ this]
  show ?thesis
    using d s by (simp add: placeSpiral_state_def spiral_walk_place_cells)
qed

text \<open>
  C2, as the code has it. For a table of \<open>N\<close> signatures and a grid of exactly \<open>N\<close>
  cells, with duplicates disallowed and an input image that covers the grid, the scheduler
  returns; the placement has one entry per grid cell; every cell other than the reserved
  origin cell records a table index and no index is recorded twice. When the origin cell
  lies outside the grid, every table index is recorded (exactly once, so cells and tiles
  are in bijection); when it lies in the grid, it records the original tile \<open>-1\<close> and
  exactly \<open>N - 1\<close> table indices are recorded. The rounding of the distances plays no
  part: the statement holds for every \<open>rnd\<close>.
\<close>

theorem placement_uses_each_tile_at_most_once:
  assumes "1 \<le> dimn" "1 \<le> XD" "1 \<le> YD"
    and "\<forall>j < length table. is_signature dimn (snd (table ! j))"
    and "XD * YD = int (length table)"
    and "dimn * XD \<le> width inimage" "dimn * YD \<le> height inimage"
  shows "\<exists>tileLocations placedTiles.
           placeSpiral_state rnd inimage originalRow originalCol XD YD table dimn False
             = Inr (tileLocations, placedTiles)
         \<and> dom tileLocations = grid_cells XD YD
         \<and> (\<forall>c \<in> grid_cells XD YD. c \<noteq> (originalRow, originalCol) \<longrightarrow>
               (\<exists>i < length table. \<exists>d. tileLocations c = Some (int i, d)))
         \<and> (\<forall>c c' i d d'. tileLocations c = Some (i, d) \<and> tileLocations c' = Some (i, d')
               \<longrightarrow> c = c')
         \<and> ((originalRow, originalCol) \<notin> grid_cells XD YD \<longrightarrow>
               (\<forall>i < length table. \<exists>c d. tileLocations c = Some (int i, d)))
         \<and> ((originalRow, originalCol) \<in> grid_cells XD YD \<longrightarrow>
               tileLocations (originalRow, originalCol)
                 = Some (MOSAIC_ORIGINAL_TILE_INDEX, MOSAIC_ORIGINAL_TILE_DISTANCE)
               \<and> card {i. \<exists>c d. c \<noteq> (originalRow, originalCol) \<and> tileLocations c = Some (i, d)}
                   = length table - 1)"
proof -
  let ?o = "(originalRow, originalCol)" and ?G = "grid_cells XD YD" and ?N = "length table"
  from placeSpiral_state_succeeds[OF assms] obtain tl pt where
    run: "placeSpiral_state rnd inimage originalRow originalCol XD YD table dimn False = Inr (tl, pt)"
    by fastforce
  have inv: "sched_inv False ?o ?N (spiral_order XD YD) tl pt"
    by (rule placeSpiral_state_inv[OF run assms(2,3)])
  have "dom tl = set (spiral_order XD YD)"
    using inv unfolding sched_inv_def by (elim conjE)
  then have dom: "dom tl = ?G"
    by (simp only: spiral_order_props(2)[OF assms(2,3)])
  have rng: "\<And>c i d. tl c = Some (i, d) \<Longrightarrow>
            (if c = ?o then i = MOSAIC_ORIGINAL_TILE_INDEX \<and> d = MOSAIC_ORIGINAL_TILE_DISTANCE
             else 0 \<le> i \<and> i < int ?N)"
    and inj: "\<And>c c' i d d'. tl c = Some (i, d) \<Longrightarrow> tl c' = Some (i, d') \<Longrightarrow> c = c'"
    using inv unfolding sched_inv_def by blast+
  have cardG: "card ?G = ?N" and finG: "finite ?G"
  proof -
    have "card ?G = nat (XD * YD)"
      using assms(2,3) by (simp add: card_grid_cells nat_mult_distrib mult.commute)
    then show "card ?G = ?N" using assms(5) by simp
    have "?G = {0..<YD} \<times> {0..<XD}" by (auto simp: grid_cells_def)
    then show "finite ?G" by simp
  qed
  define f where "f c = fst (the (tl c))" for c
  have f: "tl c = Some (f c, snd (the (tl c)))" if "c \<in> ?G" for c
  proof -
    have "c \<in> dom tl" using that by (simp only: dom)
    then obtain v where "tl c = Some v" by (auto simp only: dom_def mem_Collect_eq)
    then show ?thesis by (simp add: f_def)
  qed
  have finj: "inj_on f ?G"
    by (rule inj_onI) (metis f inj)
  have 2: "\<forall>c \<in> ?G. c \<noteq> ?o \<longrightarrow> (\<exists>i < ?N. \<exists>d. tl c = Some (int i, d))"
  proof (intro ballI impI)
    fix c assume c: "c \<in> ?G" "c \<noteq> ?o"
    have "0 \<le> f c \<and> f c < int ?N"
      using rng[OF f[OF c(1)]] c(2) by simp
    then have "nat (f c) < ?N" "int (nat (f c)) = f c" by (auto simp: nat_less_iff)
    then show "\<exists>i < ?N. \<exists>d. tl c = Some (int i, d)"
      using f[OF c(1)] by metis
  qed
  have 4: "\<forall>i < ?N. \<exists>c d. tl c = Some (int i, d)" if out: "?o \<notin> ?G"
  proof -
    have sub: "f ` ?G \<subseteq> int ` {0..<?N}"
    proof
      fix i assume "i \<in> f ` ?G"
      then obtain c where c: "c \<in> ?G" "i = f c" by blast
      then have "c \<noteq> ?o" using out by auto
      then have "0 \<le> i \<and> i < int ?N"
        using rng[OF f[OF c(1)]] c(2) by simp
      then have "i = int (nat i)" "nat i \<in> {0..<?N}" by (auto simp: nat_less_iff)
      then show "i \<in> int ` {0..<?N}" by (rule image_eqI)
    qed
    have "card (f ` ?G) = card (int ` {0..<?N})"
      using card_image[OF finj] cardG by (simp add: card_image)
    then have eq: "f ` ?G = int ` {0..<?N}"
      using sub by (intro card_subset_eq) auto
    show ?thesis
    proof (intro allI impI)
      fix i assume "i < ?N"
      then have "int i \<in> f ` ?G" unfolding eq by simp
      then obtain c where "c \<in> ?G" "int i = f c" by blast
      then show "\<exists>c d. tl c = Some (int i, d)"
        using f by metis
    qed
  qed
  have 5: "tl ?o = Some (MOSAIC_ORIGINAL_TILE_INDEX, MOSAIC_ORIGINAL_TILE_DISTANCE)
           \<and> card {i. \<exists>c d. c \<noteq> ?o \<and> tl c = Some (i, d)} = ?N - 1" if inside: "?o \<in> ?G"
  proof -
    have a: "tl ?o = Some (MOSAIC_ORIGINAL_TILE_INDEX, MOSAIC_ORIGINAL_TILE_DISTANCE)"
      using rng[OF f[OF inside]] f[OF inside] by simp
    have "{i. \<exists>c d. c \<noteq> ?o \<and> tl c = Some (i, d)} = f ` (?G - {?o})"
    proof (intro set_eqI iffI)
      fix i assume "i \<in> {i. \<exists>c d. c \<noteq> ?o \<and> tl c = Some (i, d)}"
      then obtain c d where c: "c \<noteq> ?o" "tl c = Some (i, d)" by blast
      then have "c \<in> ?G - {?o}" "i = f c" using dom by (auto simp: f_def)
      then show "i \<in> f ` (?G - {?o})" by blast
    next
      fix i assume "i \<in> f ` (?G - {?o})"
      then obtain c where c: "c \<in> ?G" "c \<noteq> ?o" "i = f c" by blast
      then have "tl c = Some (i, snd (the (tl c)))" using f by simp
      then show "i \<in> {i. \<exists>c d. c \<noteq> ?o \<and> tl c = Some (i, d)}" using c(2) by blast
    qed
    moreover have "card (f ` (?G - {?o})) = card (?G - {?o})"
      by (intro card_image inj_on_subset[OF finj]) auto
    moreover have "card (?G - {?o}) = ?N - 1"
      using inside finG cardG by simp
    ultimately show ?thesis using a by simp
  qed
  show ?thesis
    by (intro exI[of _ tl] exI[of _ pt] conjI run dom 2 impI 4 5 allI) (auto dest: inj)
qed

theorem placement_uses_each_tile_at_most_once_witness:
  "(1::int) \<le> 1 \<and> (1::int) \<le> 2
   \<and> is_signature 1 (snd ([(''white'', ([255], [255], [255])), (''black'', ([0], [0], [0]))] ! 0))
   \<and> is_signature 1 (snd ([(''white'', ([255], [255], [255])), (''black'', ([0], [0], [0]))] ! 1))
   \<and> (1::int) * 2 = int (length [(''white'', ([255::int], [255::int], [255::int])),
                                 (''black'', ([0], [0], [0]))])
   \<and> 1 * 1 \<le> width \<lparr>width = 1, height = 2,
                      pixel = \<lambda>x y. if y = 0 then (255, 255, 255) else (0, 0, 0)\<rparr>
   \<and> 1 * 2 \<le> height \<lparr>width = 1, height = 2,
                      pixel = \<lambda>x y. if y = 0 then (255, 255, 255) else (0, 0, 0)\<rparr>
   \<and> placeSpiral_state fl
       \<lparr>width = 1, height = 2, pixel = \<lambda>x y. if y = 0 then (255, 255, 255) else (0, 0, 0)\<rparr>
       1 0 1 2 [(''white'', ([255], [255], [255])), (''black'', ([0], [0], [0]))] 1 False
     = Inr ([(0, 0) \<mapsto> (0, 0), (1, 0) \<mapsto> (- 1, 0)], {- 1, 0})
   \<and> dom [(0 :: int, 0 :: int) \<mapsto> (0 :: int, 0 :: real), (1, 0) \<mapsto> (- 1, 0)] = grid_cells 1 2
   \<and> card {i. \<exists>c d. c \<noteq> (1, 0)
              \<and> [(0 :: int, 0 :: int) \<mapsto> (0 :: int, 0 :: real), (1, 0) \<mapsto> (- 1, 0)] c = Some (i, d)}
       = 1"
proof -
  let ?tbl = "[(''white'', ([255], [255], [255])), (''black'', ([0::int], [0::int], [0::int]))]"
  let ?im = "\<lparr>width = 1, height = 2,
              pixel = \<lambda>x y. if y = 0 then (255::int, 255::int, 255::int) else (0, 0, 0)\<rparr>"
  let ?locs = "[(0 :: int, 0 :: int) \<mapsto> (0 :: int, 0 :: real), (1, 0) \<mapsto> (- 1, 0)]"
  have sigs: "\<forall>j < length ?tbl. is_signature 1 (snd (?tbl ! j))"
    by (simp add: is_signature_def less_Suc_eq)
  have g: "(1, 0) \<in> grid_cells 1 2"
    by (simp add: grid_cells_def)
  from placement_uses_each_tile_at_most_once[where rnd = fl and dimn = 1 and XD = 1 and YD = 2
         and table = ?tbl and inimage = ?im and originalRow = 1 and originalCol = 0,
       OF _ _ _ sigs]
  obtain tl pt where
    run: "placeSpiral_state fl ?im 1 0 1 2 ?tbl 1 False = Inr (tl, pt)"
    and dom: "dom tl = grid_cells 1 2"
    and crd: "(1, 0) \<in> grid_cells 1 2 \<longrightarrow>
               tl (1, 0) = Some (MOSAIC_ORIGINAL_TILE_INDEX, MOSAIC_ORIGINAL_TILE_DISTANCE)
               \<and> card {i. \<exists>c d. c \<noteq> (1, 0) \<and> tl c = Some (i, d)} = length ?tbl - 1"
    by auto
  have tl: "tl = ?locs"
    using run example_schedule by simp
  have d: "dom ?locs = grid_cells 1 2"
    using dom unfolding tl .
  have "card {i. \<exists>c d. c \<noteq> (1, 0) \<and> ?locs c = Some (i, d)} = length ?tbl - 1"
    using crd g unfolding tl by blast
  moreover have "length ?tbl - 1 = 1"
    by simp
  ultimately have c: "card {i. \<exists>c d. c \<noteq> (1, 0) \<and> ?locs c = Some (i, d)} = 1"
    by (rule trans)
  have h: "(1::int) \<le> 1" "(1::int) \<le> 2" "is_signature 1 (snd (?tbl ! 0))"
    "is_signature 1 (snd (?tbl ! 1))" "(1::int) * 2 = int (length ?tbl)"
    "1 * 1 \<le> width ?im" "1 * 2 \<le> height ?im"
    by (simp_all add: is_signature_def)
  show ?thesis
    by (intro conjI h example_schedule d c)
qed

theorem every_tile_placed_counterexample:
  "placeSpiral fl
     \<lparr>width = 1, height = 2, pixel = \<lambda>x y. if y = 0 then (255, 255, 255) else (0, 0, 0)\<rparr>
     (2 - 1) 0 1 2 [(''white'', ([255], [255], [255])), (''black'', ([0], [0], [0]))] 1 False
   = Inr ([(0, 0) \<mapsto> (0, 0), (1, 0) \<mapsto> (- 1, 0)], 2)
   \<and> (1::int) * 2 = int (length [(''white'', ([255::int], [255::int], [255::int])),
                                 (''black'', ([0], [0], [0]))])
   \<and> fst ` ran [(0 :: int, 0 :: int) \<mapsto> (0 :: int, 0 :: real), (1, 0) \<mapsto> (- 1, 0)] = {0, - 1}
   \<and> (1::int) \<notin> fst ` ran [(0 :: int, 0 :: int) \<mapsto> (0 :: int, 0 :: real), (1, 0) \<mapsto> (- 1, 0)]"
proof -
  have "ran [(0 :: int, 0 :: int) \<mapsto> (0 :: int, 0 :: real), (1, 0) \<mapsto> (- 1, 0)]
          = {(- 1, 0), (0, 0)}"
    by (simp add: ran_map_upd)
  then have r: "fst ` ran [(0 :: int, 0 :: int) \<mapsto> (0 :: int, 0 :: real), (1, 0) \<mapsto> (- 1, 0)]
                  = {0, - 1}"
    by auto
  have p: "placeSpiral fl
     \<lparr>width = 1, height = 2, pixel = \<lambda>x y. if y = 0 then (255, 255, 255) else (0, 0, 0)\<rparr>
     (2 - 1) 0 1 2 [(''white'', ([255], [255], [255])), (''black'', ([0], [0], [0]))] 1 False
   = Inr ([(0, 0) \<mapsto> (0, 0), (1, 0) \<mapsto> (- 1, 0)], 2)"
    using example_schedule by (simp add: placeSpiral_def)
  show ?thesis
    unfolding r by (intro conjI p) simp_all
qed

section \<open>The grid colour summarizer\<close>

lemma for_each_append:
  "for_each f (as @ bs) s
     = (case for_each f as s of Inl e \<Rightarrow> Inl e | Inr s' \<Rightarrow> for_each f bs s')"
  by (induction as arbitrary: s) (simp_all split: sum.splits)

lemma for_each_map_Pair:
  "for_each (\<lambda>(x, y). body x y) (map (Pair x) ys) s = for_each (body x) ys s"
  by (induction ys arbitrary: s) (simp_all split: sum.splits)

lemma for_each_nested:
  "for_each (\<lambda>x. for_each (\<lambda>y. body x y) ys) xs st
     = for_each (\<lambda>(x, y). body x y) [(x, y). x \<leftarrow> xs, y \<leftarrow> ys] st"
proof (induction xs arbitrary: st)
  case Nil
  then show ?case by simp
next
  case (Cons x xs)
  show ?case
    by (simp add: for_each_append for_each_map_Pair Cons split: sum.splits)
qed

lemma pixels_loop:
  assumes "\<forall>p \<in> set ps. 0 \<le> fst p \<and> fst p < width im \<and> 0 \<le> snd p \<and> snd p < height im"
    and "s < length R" "s < length G" "s < length B"
  shows "for_each (\<lambda>(i, j). colours_pixel im i j) ps (R, G, B, s, c)
           = Inr (R[s := R ! s + (\<Sum>(i, j)\<leftarrow>ps. red (pixel im i j))],
                  G[s := G ! s + (\<Sum>(i, j)\<leftarrow>ps. green (pixel im i j))],
                  B[s := B ! s + (\<Sum>(i, j)\<leftarrow>ps. blue (pixel im i j))],
                  s, c + length ps)"
  using assms
proof (induction ps arbitrary: R G B c)
  case Nil
  then show ?case by simp
next
  case (Cons p ps)
  obtain i j where p: "p = (i, j)" by (cases p) auto
  obtain r g b where px: "pixel im i j = (r, g, b)" by (cases "pixel im i j") auto
  have step: "colours_pixel im i j (R, G, B, s, c)
                = Inr (R[s := R ! s + r], G[s := G ! s + g], B[s := B ! s + b], s, c + 1)"
    using Cons.prems by (simp add: colours_pixel_def getpixel_def p px)
  have rest: "for_each (\<lambda>(i, j). colours_pixel im i j) ps
                (R[s := R ! s + r], G[s := G ! s + g], B[s := B ! s + b], s, c + 1)
              = Inr ((R[s := R ! s + r])[s := (R[s := R ! s + r]) ! s
                          + (\<Sum>(i, j)\<leftarrow>ps. red (pixel im i j))],
                     (G[s := G ! s + g])[s := (G[s := G ! s + g]) ! s
                          + (\<Sum>(i, j)\<leftarrow>ps. green (pixel im i j))],
                     (B[s := B ! s + b])[s := (B[s := B ! s + b]) ! s
                          + (\<Sum>(i, j)\<leftarrow>ps. blue (pixel im i j))],
                     s, c + 1 + length ps)"
    using Cons.prems by (intro Cons.IH) simp_all
  have upd: "(L[s := L ! s + v])[s := (L[s := L ! s + v]) ! s + t] = L[s := L ! s + (v + t)]"
    if "s < length L" for L :: "int list" and v t
    using that by (simp add: add.assoc)
  have "for_each (\<lambda>(i, j). colours_pixel im i j) (p # ps) (R, G, B, s, c)
          = for_each (\<lambda>(i, j). colours_pixel im i j) ps
              (R[s := R ! s + r], G[s := G ! s + g], B[s := B ! s + b], s, c + 1)"
    by (simp add: p step)
  also note rest
  also have "Inr ((R[s := R ! s + r])[s := (R[s := R ! s + r]) ! s
                          + (\<Sum>(i, j)\<leftarrow>ps. red (pixel im i j))],
                     (G[s := G ! s + g])[s := (G[s := G ! s + g]) ! s
                          + (\<Sum>(i, j)\<leftarrow>ps. green (pixel im i j))],
                     (B[s := B ! s + b])[s := (B[s := B ! s + b]) ! s
                          + (\<Sum>(i, j)\<leftarrow>ps. blue (pixel im i j))],
                     s, c + 1 + length ps)
        = (Inr (R[s := R ! s + (\<Sum>(i, j)\<leftarrow>p # ps. red (pixel im i j))],
                  G[s := G ! s + (\<Sum>(i, j)\<leftarrow>p # ps. green (pixel im i j))],
                  B[s := B ! s + (\<Sum>(i, j)\<leftarrow>p # ps. blue (pixel im i j))],
                  s, c + length (p # ps)) :: error + colours_state)"
    unfolding upd[OF Cons.prems(2)] upd[OF Cons.prems(3)] upd[OF Cons.prems(4)]
    by (simp add: p px red_def green_def blue_def)
  finally show ?case .
qed


lemma for_each_map: "for_each body (map f xs) st = for_each (\<lambda>v. body (f v)) xs st"
  by (induction xs arbitrary: st) (simp_all split: sum.splits)

lemma py_int_div:
  assumes "0 \<le> a" "0 < d"
  shows "py_int (real_of_int a / real_of_int d) = a div d"
  using assms by (simp add: py_int_def floor_divide_of_int_eq)

lemma div_add_le_int:
  assumes "0 < d"
  shows "a div d + b div d \<le> (a + b) div (d::int)"
proof -
  have "(a div d + b div d) * d \<le> a + b"
    using assms by (simp add: distrib_right add_mono) (metis add_mono div_mult_self_is_m
        mult.commute pos_mod_sign cancel_div_mod_rules(2) add.right_neutral add_le_cancel_left)
  then have "((a div d + b div d) * d) div d \<le> (a + b) div d"
    using assms by (intro zdiv_mono1) simp_all
  then show ?thesis
    using assms by simp
qed

lemma span_inside:
  assumes "1 \<le> d" "x < nat d" "i < nat (w div d)" "0 \<le> (w::int)"
  shows "0 \<le> int x * w div d + int i" "int x * w div d + int i < w"
proof -
  have d: "0 < d" using assms(1) by simp
  have "0 \<le> int x * w div d"
    using assms(4) d by (simp add: pos_imp_zdiv_nonneg_iff)
  then show "0 \<le> int x * w div d + int i" by simp
  have "int x * w div d + w div d \<le> (int x * w + w) div d"
    by (rule div_add_le_int[OF d])
  also have "int x * w + w = (int x + 1) * w"
    by (simp add: algebra_simps)
  also have "(int x + 1) * w div d \<le> d * w div d"
    using assms(2,4) d by (intro zdiv_mono1 mult_right_mono) simp_all
  also have "d * w div d = w"
    using d by simp
  finally have "int x * w div d + w div d \<le> w" .
  moreover have "int i < w div d"
    using assms(3) by simp
  ultimately show "int x * w div d + int i < w" by simp
qed

lemma cell_pixels_inside:
  assumes "1 \<le> dimn" "x < nat dimn" "y < nat dimn" "0 \<le> width im" "0 \<le> height im"
    and "p \<in> set (cell_pixels im dimn x y)"
  shows "0 \<le> fst p \<and> fst p < width im \<and> 0 \<le> snd p \<and> snd p < height im"
proof -
  from assms(6) obtain i j where
    p: "p = (int x * width im div dimn + int i, int y * height im div dimn + int j)"
       "i < nat (width im div dimn)" "j < nat (height im div dimn)"
    by (auto simp: cell_pixels_def)
  show ?thesis
    using span_inside[OF assms(1,2) p(2) assms(4)] span_inside[OF assms(1,3) p(3) assms(5)]
    by (simp add: p(1))
qed

lemma length_cell_pixels:
  "length (cell_pixels im dimn x y) = nat (width im div dimn) * nat (height im div dimn)"
  by (simp add: cell_pixels_def length_concat comp_def sum_list_triv)

lemma colours_cell_mean:
  assumes d: "1 \<le> dimn" "dimn \<le> width im" "dimn \<le> height im"
    and xy: "x < nat dimn" "y < nat dimn"
    and s: "s < length R" "s < length G" "s < length B" "R ! s = 0" "G ! s = 0" "B ! s = 0"
  shows "colours_cell im dimn x y (R, G, B, s, 0)
           = Inr (R[s := channel_mean red im (cell_pixels im dimn x y)],
                  G[s := channel_mean green im (cell_pixels im dimn x y)],
                  B[s := channel_mean blue im (cell_pixels im dimn x y)], s + 1, 0)"
proof -
  let ?ps = "cell_pixels im dimn x y"
  have pos: "0 < dimn" "0 \<le> width im" "0 \<le> height im"
    using d by simp_all
  have off: "py_int (real_of_int (int x * width im) / real_of_int dimn) = int x * width im div dimn"
       "py_int (real_of_int (int y * height im) / real_of_int dimn) = int y * height im div dimn"
       "py_int (real_of_int (width im) / real_of_int dimn) = width im div dimn"
       "py_int (real_of_int (height im) / real_of_int dimn) = height im div dimn"
    using pos by (simp_all only: py_int_div mult_nonneg_nonneg of_nat_0_le_iff)
  let ?L = "[(i, j). i \<leftarrow> [0..<nat (width im div dimn)], j \<leftarrow> [0..<nat (height im div dimn)]]"
  let ?f = "\<lambda>(i, j). (int x * width im div dimn + int i, int y * height im div dimn + int j)"
  have cp: "?ps = map ?f ?L"
    by (simp add: cell_pixels_def map_concat comp_def)
  have body: "(\<lambda>(i, j). colours_pixel im (int i + int x * width im div dimn)
                                       (int j + int y * height im div dimn))
                = (\<lambda>v. (\<lambda>(i, j). colours_pixel im i j) (?f v))"
    by (auto simp: fun_eq_iff add.commute)
  have loops: "for_each
                (\<lambda>i. for_each (\<lambda>j. colours_pixel im (int i + int x * width im div dimn)
                                       (int j + int y * height im div dimn))
                        (py_range (height im div dimn)))
                (py_range (width im div dimn)) st
               = for_each (\<lambda>(i, j). colours_pixel im i j) ?ps st" for st
    unfolding for_each_nested py_range_def cp for_each_map body ..
  have n: "0 < length ?ps"
  proof -
    have "0 < width im div dimn" "0 < height im div dimn"
      using d pos(1) by (simp_all only: pos_imp_zdiv_pos_iff)
    then show ?thesis
      by (simp add: length_cell_pixels)
  qed
  have inside: "\<forall>p \<in> set ?ps. 0 \<le> fst p \<and> fst p < width im \<and> 0 \<le> snd p \<and> snd p < height im"
    using cell_pixels_inside[OF d(1) xy pos(2,3)] by blast
  show ?thesis
    unfolding colours_cell_def Let_def off loops pixels_loop[OF inside s(1-3)]
    using n s by (simp add: channel_mean_def)
qed


lemma update_first_zero:
  "m \<noteq> 0 \<Longrightarrow> (xs @ replicate m (0::int))[length xs := v] = (xs @ [v]) @ replicate (m - 1) 0"
  by (cases m) (simp_all add: list_update_append)

lemma cells_loop:
  assumes d: "1 \<le> dimn" "dimn \<le> width im" "dimn \<le> height im"
    and "\<forall>c \<in> set cs. fst c < nat dimn \<and> snd c < nat dimn" "length cs \<le> m"
  shows "for_each (\<lambda>(x, y). colours_cell im dimn x y) cs
           (map (cell_mean red im dimn) ds @ replicate m 0,
            map (cell_mean green im dimn) ds @ replicate m 0,
            map (cell_mean blue im dimn) ds @ replicate m 0, length ds, 0)
         = Inr (map (cell_mean red im dimn) (ds @ cs) @ replicate (m - length cs) 0,
                map (cell_mean green im dimn) (ds @ cs) @ replicate (m - length cs) 0,
                map (cell_mean blue im dimn) (ds @ cs) @ replicate (m - length cs) 0,
                length (ds @ cs), 0)"
  using assms(4,5)
proof (induction cs arbitrary: ds m)
  case Nil
  then show ?case by simp
next
  case (Cons c cs)
  obtain x y where c: "c = (x, y)" by (cases c) auto
  have xy: "x < nat dimn" "y < nat dimn" and m: "m \<noteq> 0"
    using Cons.prems(1,2) by (auto simp: c)
  let ?s = "length ds"
  let ?fr = "cell_mean red im dimn" and ?fg = "cell_mean green im dimn"
    and ?fb = "cell_mean blue im dimn"
  have s: "?s < length (map ?fr ds @ replicate m 0)" "?s < length (map ?fg ds @ replicate m 0)"
          "?s < length (map ?fb ds @ replicate m 0)"
          "(map ?fr ds @ replicate m 0) ! ?s = 0" "(map ?fg ds @ replicate m 0) ! ?s = 0"
          "(map ?fb ds @ replicate m 0) ! ?s = 0"
    using m by (simp_all add: nth_append)
  have u: "(map f ds @ replicate m (0::int))[?s := f c] = map f (ds @ [c]) @ replicate (m - 1) 0"
    for f :: "nat \<times> nat \<Rightarrow> int"
    using update_first_zero[OF m, of "map f ds" "f c"] by simp
  have cm: "channel_mean ch im (cell_pixels im dimn x y) = cell_mean ch im dimn c" for ch
    by (simp add: cell_mean_def c)
  have step: "colours_cell im dimn x y
                (map ?fr ds @ replicate m 0, map ?fg ds @ replicate m 0,
                 map ?fb ds @ replicate m 0, ?s, 0)
              = Inr (map ?fr (ds @ [c]) @ replicate (m - 1) 0,
                     map ?fg (ds @ [c]) @ replicate (m - 1) 0,
                     map ?fb (ds @ [c]) @ replicate (m - 1) 0, length (ds @ [c]), 0)"
    unfolding colours_cell_mean[OF d xy s] cm u by simp
  have "for_each (\<lambda>(x, y). colours_cell im dimn x y) cs
           (map ?fr (ds @ [c]) @ replicate (m - 1) 0, map ?fg (ds @ [c]) @ replicate (m - 1) 0,
            map ?fb (ds @ [c]) @ replicate (m - 1) 0, length (ds @ [c]), 0)
         = Inr (map ?fr ((ds @ [c]) @ cs) @ replicate (m - 1 - length cs) 0,
                map ?fg ((ds @ [c]) @ cs) @ replicate (m - 1 - length cs) 0,
                map ?fb ((ds @ [c]) @ cs) @ replicate (m - 1 - length cs) 0,
                length ((ds @ [c]) @ cs), 0)"
    using Cons.prems by (intro Cons.IH) auto
  then show ?case
    by (simp add: c step)
qed

lemma colours_summary:
  assumes "1 \<le> dimn" "dimn \<le> width im" "dimn \<le> height im"
  shows "colours im dimn = Inr (summary im dimn)"
proof -
  have len: "length (grid_sections dimn) = nat (dimn * dimn)"
    using assms(1) by (simp add: grid_sections_def length_concat comp_def sum_list_triv
        nat_mult_distrib)
  have mem: "\<forall>c \<in> set (grid_sections dimn). fst c < nat dimn \<and> snd c < nat dimn"
    by (auto simp: grid_sections_def)
  have "for_each (\<lambda>(x, y). colours_cell im dimn x y) (grid_sections dimn)
           (map (cell_mean red im dimn) [] @ replicate (nat (dimn * dimn)) 0,
            map (cell_mean green im dimn) [] @ replicate (nat (dimn * dimn)) 0,
            map (cell_mean blue im dimn) [] @ replicate (nat (dimn * dimn)) 0,
            length ([] :: (nat \<times> nat) list), 0)
         = Inr (map (cell_mean red im dimn) ([] @ grid_sections dimn)
                  @ replicate (nat (dimn * dimn) - length (grid_sections dimn)) 0,
                map (cell_mean green im dimn) ([] @ grid_sections dimn)
                  @ replicate (nat (dimn * dimn) - length (grid_sections dimn)) 0,
                map (cell_mean blue im dimn) ([] @ grid_sections dimn)
                  @ replicate (nat (dimn * dimn) - length (grid_sections dimn)) 0,
                length ([] @ grid_sections dimn), 0)"
    by (rule cells_loop[OF assms mem]) (simp add: len)
  then have "for_each (\<lambda>(x, y). colours_cell im dimn x y) (grid_sections dimn)
           (replicate (nat (dimn * dimn)) 0, replicate (nat (dimn * dimn)) 0,
            replicate (nat (dimn * dimn)) 0, 0, 0)
         = Inr (map (cell_mean red im dimn) (grid_sections dimn),
                map (cell_mean green im dimn) (grid_sections dimn),
                map (cell_mean blue im dimn) (grid_sections dimn),
                length (grid_sections dimn), 0)"
    by (simp add: len)
  moreover have "[(x, y). x \<leftarrow> py_range dimn, y \<leftarrow> py_range dimn] = grid_sections dimn"
    by (simp add: grid_sections_def py_range_def)
  ultimately show ?thesis
    unfolding colours_def for_each_nested by (simp add: summary_def)
qed


lemma py_round_of_int: "py_round (real_of_int v) = v"
  by (simp add: py_round_def)

lemma channel_mean_uniform:
  assumes "\<forall>p \<in> set ps. ch (pixel im (fst p) (snd p)) = v" "ps \<noteq> []"
  shows "channel_mean ch im ps = v"
proof -
  have "(\<Sum>(i, j)\<leftarrow>ps. ch (pixel im i j)) = int (length ps) * v"
    using assms(1) by (induction ps) (auto simp: algebra_simps)
  then have "real_of_int (\<Sum>(i, j)\<leftarrow>ps. ch (pixel im i j)) / real (length ps) = real_of_int v"
    using assms(2) by simp
  then show ?thesis
    by (simp only: channel_mean_def py_round_of_int)
qed

lemma cell_pixels_nonempty:
  assumes "1 \<le> dimn" "dimn \<le> width im" "dimn \<le> height im"
  shows "cell_pixels im dimn x y \<noteq> []"
proof -
  have "0 < width im div dimn" "0 < height im div dimn"
    using assms by (simp_all only: pos_imp_zdiv_pos_iff zero_less_one less_le_trans[OF zero_less_one])
  then have "0 < length (cell_pixels im dimn x y)"
    by (simp add: length_cell_pixels)
  then show ?thesis by auto
qed

text \<open>
  C7, as the code has it. For every square image whose pixels all have the same colour
  \<open>(r, g, b)\<close> and every grid dimension \<open>dim\<close> from 1 up to the side of the image,
  \<open>colours\<close> returns \<open>dim*dim\<close> cells, each exactly \<open>(r, g, b)\<close>. For a grid
  dimension above the side, a cell spans no pixel and the division by the pixel count
  raises ZeroDivisionError.
\<close>

theorem uniform_image_summary:
  assumes "1 \<le> dimn" "dimn \<le> width im" "height im = width im"
    and "\<forall>x y. pixel im x y = (r, g, b)"
  shows "colours im dimn
           = Inr (replicate (nat (dimn * dimn)) r, replicate (nat (dimn * dimn)) g,
                  replicate (nat (dimn * dimn)) b)"
proof -
  have h: "dimn \<le> height im"
    using assms(2,3) by simp
  have len: "length (grid_sections dimn) = nat (dimn * dimn)"
    using assms(1) by (simp add: grid_sections_def length_concat comp_def sum_list_triv
        nat_mult_distrib)
  have m: "cell_mean ch im dimn c = ch (r, g, b)" for ch c
    unfolding cell_mean_def case_prod_unfold
    by (rule channel_mean_uniform) (simp_all add: assms(4) cell_pixels_nonempty[OF assms(1,2) h])
  have mf: "cell_mean ch im dimn = (\<lambda>c. ch (r, g, b))" for ch
    by (rule ext) (rule m)
  have "summary im dimn
          = (replicate (nat (dimn * dimn)) r, replicate (nat (dimn * dimn)) g,
             replicate (nat (dimn * dimn)) b)"
    by (simp add: summary_def mf map_replicate_const len red_def green_def blue_def)
  then show ?thesis
    using colours_summary[OF assms(1,2) h] by simp
qed

theorem uniform_image_summary_witness:
  "(1::int) \<le> 2
   \<and> 2 \<le> width \<lparr>width = 5, height = 5, pixel = \<lambda>x y. (10, 20, 30)\<rparr>
   \<and> height \<lparr>width = 5, height = 5, pixel = \<lambda>x y. (10, 20, 30)\<rparr>
       = width \<lparr>width = 5, height = 5, pixel = \<lambda>x y. (10, 20, 30)\<rparr>
   \<and> colours \<lparr>width = 5, height = 5, pixel = \<lambda>x y. (10, 20, 30)\<rparr> 2
       = Inr ([10, 10, 10, 10], [20, 20, 20, 20], [30, 30, 30, 30])"
  using uniform_image_summary[of 2 "\<lparr>width = 5, height = 5, pixel = \<lambda>x y. (10, 20, 30)\<rparr>" 10 20 30]
  by (simp add: eval_nat_numeral)

theorem uniform_image_summary_counterexample:
  "colours \<lparr>width = 1, height = 1, pixel = \<lambda>x y. (10, 20, 30)\<rparr> 2 = Inl ZeroDivisionError"
  by (simp add: colours_def colours_cell_def py_range_def py_int_def eval_nat_numeral)

lemma span_cover:
  assumes "1 \<le> d" "d dvd w" "0 \<le> i" "i < (w::int)"
  shows "\<exists>x < nat d. \<exists>k < nat (w div d). i = int x * w div d + int k"
proof -
  define q where "q = w div d"
  have w: "w = d * q"
    using assms(2) by (simp add: q_def)
  have q: "0 < q"
    using assms w by (metis less_le_trans mult_pos_pos not_less zero_less_mult_pos
        zero_less_one le_less_trans)
  have x0: "0 \<le> i div q"
    using assms(3) q by (simp add: pos_imp_zdiv_nonneg_iff)
  have "q * (i div q) \<le> i"
    using mult_div_mod_eq[of q i] pos_mod_sign[OF q, of i] by linarith
  then have "q * (i div q) < q * d"
    using assms(4) w by (simp add: mult.commute)
  then have x1: "i div q < d"
    using q by (simp add: mult_less_cancel_left_pos)
  note x = x0 x1
  have k: "0 \<le> i mod q" "i mod q < q"
    using q by simp_all
  have off: "int (nat (i div q)) * w div d = (i div q) * q"
    using x(1) assms(1) by (simp add: w)
  have "i = int (nat (i div q)) * w div d + int (nat (i mod q))"
    unfolding off using k(1) by simp
  moreover have "nat (i div q) < nat d" "nat (i mod q) < nat (w div d)"
    using x k q by (simp_all add: q_def nat_less_iff)
  ultimately show ?thesis by blast
qed

lemma cell_pixels_cover:
  assumes "1 \<le> dimn" "dimn dvd width im" "dimn dvd height im"
    and "0 \<le> i" "i < width im" "0 \<le> j" "j < height im"
  shows "\<exists>c \<in> set (grid_sections dimn). (i, j) \<in> set (cell_pixels im dimn (fst c) (snd c))"
proof -
  from span_cover[OF assms(1,2,4,5)] obtain x k where
    x: "x < nat dimn" "k < nat (width im div dimn)" "i = int x * width im div dimn + int k"
    by blast
  from span_cover[OF assms(1,3,6,7)] obtain y l where
    y: "y < nat dimn" "l < nat (height im div dimn)" "j = int y * height im div dimn + int l"
    by blast
  have "(x, y) \<in> set (grid_sections dimn)"
    using x(1) y(1) by (force simp: grid_sections_def)
  moreover have "(i, j) \<in> set (cell_pixels im dimn x y)"
    using x(2,3) y(2,3) by (force simp: cell_pixels_def)
  ultimately show ?thesis by force
qed

text \<open>
  C8, as the code has it. For an image of width \<open>w\<close> and height \<open>h\<close> and a grid
  dimension \<open>1 \<le> dim \<le> min w h\<close>, \<open>colours\<close> returns, for each cell \<open>(x, y)\<close>
  in column-major order, the rounded means over exactly the pixels
  \<open>x*w div dim + i\<close>, \<open>y*h div dim + j\<close> with \<open>i < w div dim\<close> and
  \<open>j < h div dim\<close>; these pixels lie inside the image; and when \<open>dim\<close> divides both
  \<open>w\<close> and \<open>h\<close>, every pixel of the image belongs to a cell. Otherwise the pixels
  left out are those between the spans, which need not be in the final row or column: for
  \<open>w = 5\<close> and \<open>dim = 3\<close> the spans are the columns 0, 1 and 3.
\<close>

theorem cells_average_their_spans:
  assumes "1 \<le> dimn" "dimn \<le> width im" "dimn \<le> height im"
  shows "colours im dimn = Inr (summary im dimn)
         \<and> (\<forall>c \<in> set (grid_sections dimn). \<forall>p \<in> set (cell_pixels im dimn (fst c) (snd c)).
               0 \<le> fst p \<and> fst p < width im \<and> 0 \<le> snd p \<and> snd p < height im)
         \<and> (dimn dvd width im \<and> dimn dvd height im \<longrightarrow>
               (\<forall>i j. 0 \<le> i \<and> i < width im \<and> 0 \<le> j \<and> j < height im \<longrightarrow>
                  (\<exists>c \<in> set (grid_sections dimn).
                      (i, j) \<in> set (cell_pixels im dimn (fst c) (snd c)))))"
proof (intro conjI ballI impI allI)
  show "colours im dimn = Inr (summary im dimn)"
    by (rule colours_summary[OF assms])
next
  fix c p assume c: "c \<in> set (grid_sections dimn)"
    and p: "p \<in> set (cell_pixels im dimn (fst c) (snd c))"
  have "fst c < nat dimn" "snd c < nat dimn"
    using c by (auto simp: grid_sections_def)
  moreover have "0 \<le> width im" "0 \<le> height im"
    using assms by simp_all
  ultimately show "0 \<le> fst p" "fst p < width im" "0 \<le> snd p" "snd p < height im"
    using cell_pixels_inside[OF assms(1) _ _ _ _ p] by simp_all
next
  fix i j
  assume "dimn dvd width im \<and> dimn dvd height im"
    and "0 \<le> i \<and> i < width im \<and> 0 \<le> j \<and> j < height im"
  then show "\<exists>c \<in> set (grid_sections dimn). (i, j) \<in> set (cell_pixels im dimn (fst c) (snd c))"
    using cell_pixels_cover[OF assms(1)] by blast
qed

theorem cells_average_their_spans_witness:
  "(1::int) \<le> 2
   \<and> 2 \<le> width \<lparr>width = 4, height = 4, pixel = \<lambda>x y. (4 * x, 4 * y, 0)\<rparr>
   \<and> 2 \<le> height \<lparr>width = 4, height = 4, pixel = \<lambda>x y. (4 * x, 4 * y, 0)\<rparr>
   \<and> colours \<lparr>width = 4, height = 4, pixel = \<lambda>x y. (4 * x, 4 * y, 0)\<rparr> 2
       = Inr ([2, 2, 10, 10], [2, 10, 2, 10], [0, 0, 0, 0])"
proof -
  let ?im = "\<lparr>width = 4, height = 4, pixel = \<lambda>x y. (4 * x, 4 * y, 0)\<rparr>"
  have "summary ?im 2 = ([2, 2, 10, 10], [2, 10, 2, 10], [0, 0, 0, 0])"
    by (simp add: summary_def grid_sections_def cell_mean_def channel_mean_def cell_pixels_def
          eval_nat_numeral red_def green_def blue_def py_round_def)
  then show ?thesis
    using cells_average_their_spans[of 2 ?im] by simp
qed

theorem only_final_row_dropped_counterexample:
  "colours \<lparr>width = 5, height = 5,
            pixel = \<lambda>x y. if x = 2 \<and> y = 2 then (255, 255, 255) else (0, 0, 0)\<rparr> 3
     = Inr ([0, 0, 0, 0, 0, 0, 0, 0, 0], [0, 0, 0, 0, 0, 0, 0, 0, 0], [0, 0, 0, 0, 0, 0, 0, 0, 0])
   \<and> pixel \<lparr>width = 5, height = 5,
             pixel = \<lambda>x y. if x = 2 \<and> y = 2 then (255, 255, 255) else (0, 0, 0)\<rparr> 2 2
       = (255, 255, 255)
   \<and> (2::int) < 5 - 1"
proof -
  let ?im = "\<lparr>width = 5, height = 5,
              pixel = \<lambda>x y. if x = 2 \<and> y = 2 then (255::int, 255::int, 255::int) else (0, 0, 0)\<rparr>"
  have "summary ?im 3
          = ([0, 0, 0, 0, 0, 0, 0, 0, 0], [0, 0, 0, 0, 0, 0, 0, 0, 0], [0, 0, 0, 0, 0, 0, 0, 0, 0])"
    by (simp add: summary_def grid_sections_def cell_mean_def channel_mean_def cell_pixels_def
          eval_nat_numeral red_def green_def blue_def py_round_def)
  then show ?thesis
    using colours_summary[of 3 ?im] by simp
qed

section \<open>The layout of the canvas\<close>

text \<open>
  The run on the A1 canvas of 594 by 841 mm with a margin of 20 mm, tiles of 10 mm and a
  source image of 3 by 4 pixels, in double precision: the tile counts, then the layout
  for the grid of 55 by 73 tiles (duplicates allowed, PIL's pixel limit at 89478485).
\<close>

lemma example_tile_counts: "tile_counts fl (594, 841) 20 10 (3, 4) = Inr (55, 73)"
proof -
  have t1: "fl (277 / 5) = 7796856854885171 / 140737488355328"
    by (subst fl_eval[where a = 47 and b = 0]) (simp_all add: py_round_def Let_def)
  have t2: "fl (801 / 10) = 2818268204315443 / 35184372088832"
    by (subst fl_eval[where a = 46 and b = 0]) (simp_all add: py_round_def Let_def)
  have t3: "fl (7796856854885171 / 11273072817261772) = 6229698360956941 / 9007199254740992"
    by (subst fl_eval[where a = 53 and b = 0]) (simp_all add: py_round_def Let_def)
  have t4: "fl (3 / 4) = 3 / 4"
    by (subst fl_eval[where a = 53 and b = 0]) (simp_all add: py_round_def Let_def)
  have t5: "fl (7796856854885171 / 105553116266496) = 5197904569923447 / 70368744177664"
    by (subst fl_eval[where a = 46 and b = 0]) (simp_all add: py_round_def Let_def)
  show ?thesis
    by (simp add: tile_counts_def Let_def py_int_def t1 t2 t3 t4 t5)
qed

lemma example_layout:
  "mosaic_layout fl (594, 841) 10 55 73 0 True 89478485
     = Inr \<lparr>tilesize = 118, bigwidth = 6490, bigheight = 8614, xmm = 549, ymm = 729, leftOffset = 260, topOffset = 661, actualw = 7022, actualh = 9936, actualxmm = 595, actualymm = 841\<rparr>"
proof -
  have l1: "fl (127 / 5) = 3574732204225331 / 140737488355328"
    by (subst fl_eval[where a = 48 and b = 0]) (simp_all add: py_round_def Let_def)
  have l2: "fl (422212465065984000 / 3574732204225331) = 4155634498680945 / 35184372088832"
    by (subst fl_eval[where a = 46 and b = 0]) (simp_all add: py_round_def Let_def)
  have l3: "fl (11600006002711199095 / 70368744177664) = 164846"
    by (subst fl_eval[where a = 35 and b = 0]) (simp_all add: py_round_def Let_def)
  have l4: "fl (82423 / 150) = 604166979307875 / 1099511627776"
    by (subst fl_eval[where a = 43 and b = 0]) (simp_all add: py_round_def Let_def)
  have l5: "fl (15396371603598500617 / 70368744177664) = 1879439893017395 / 8589934592"
    by (subst fl_eval[where a = 35 and b = 0]) (simp_all add: py_round_def Let_def)
  have l6: "fl (375887978603479 / 515396075520) = 1603788708708177 / 2199023255552"
    by (subst fl_eval[where a = 43 and b = 0]) (simp_all add: py_round_def Let_def)
  have l7: "fl (45 / 2) = 45 / 2"
    by (subst fl_eval[where a = 48 and b = 0]) (simp_all add: py_round_def Let_def)
  have l8: "fl (928867423145164800 / 3574732204225331) = 285699871784315 / 1099511627776"
    by (subst fl_eval[where a = 44 and b = 0]) (simp_all add: py_round_def Let_def)
  have l9: "fl (42221246506598400 / 3574732204225331) = 831126899736189 / 70368744177664"
    by (subst fl_eval[where a = 49 and b = 0]) (simp_all add: py_round_def Let_def)
  have l10: "fl 56 = 56"
    by (subst fl_eval[where a = 47 and b = 0]) (simp_all add: py_round_def Let_def)
  have l11: "fl (2364389804369510400 / 3574732204225331) = 5817888298153323 / 8796093022208"
    by (subst fl_eval[where a = 43 and b = 0]) (simp_all add: py_round_def Let_def)
  have l12: "fl (12550884769035137141 / 70368744177664) = 3064180851815219 / 17179869184"
    by (subst fl_eval[where a = 35 and b = 0]) (simp_all add: py_round_def Let_def)
  have l13: "fl (3064180851815219 / 5153960755200) = 5229535320431307 / 8796093022208"
    by (subst fl_eval[where a = 43 and b = 0]) (simp_all add: py_round_def Let_def)
  have l14: "fl (2219908698823930551 / 8796093022208) = 8671518354780979 / 34359738368"
    by (subst fl_eval[where a = 35 and b = 0]) (simp_all add: py_round_def Let_def)
  have l15: "fl (8671518354780979 / 10307921510400) = 7399695662746435 / 8796093022208"
    by (subst fl_eval[where a = 43 and b = 0]) (simp_all add: py_round_def Let_def)
  show ?thesis
    by (simp add: mosaic_layout_def Let_def py_int_def py_round_def checkFill_def DPI_def
          INCHES2MM_def THUMB_SIZE_def fl_zero l1 l2 l3 l4 l5 l6 l7 l8 l9 l10 l11 l12 l13 l14 l15)
qed

text \<open>
  C6. The final physical size is not bounded by the canvas. On the A1 canvas (594 by
  841 mm) with a margin of 20 mm, tiles of 10 mm and a source image of aspect 3:4 the
  engine derives a grid of 55 by 73 tiles of 118 pixels. The tile region measures 549 by
  729 mm and passes the two assertions \<open>xmm <= canvas[0]\<close> and \<open>ymm <= canvas[1]\<close>,
  but the fill that \<open>checkFill\<close> adds for the 45 mm left over (2 * 260 + 12 pixels)
  brings the final image to 7022 pixels: at 300 DPI that is more than 594.5 mm, and the
  final width is reported as 595 mm, on a canvas 594 mm wide.
\<close>

theorem final_size_exceeds_canvas:
  "tile_counts fl (594, 841) 20 10 (3, 4) = Inr (55, 73)
   \<and> map_sum id xmm (mosaic_layout fl (594, 841) 10 55 73 0 True 89478485) = Inr 549
   \<and> map_sum id actualw (mosaic_layout fl (594, 841) 10 55 73 0 True 89478485) = Inr 7022
   \<and> map_sum id actualxmm (mosaic_layout fl (594, 841) 10 55 73 0 True 89478485) = Inr 595
   \<and> \<not> (595 :: int) \<le> fst (594, 841)
   \<and> real_of_int (fst (594, 841)) + 1 / 2 < 7022 * (254 / 10) / real_of_int DPI"
  using example_tile_counts example_layout by (simp add: DPI_def)

section \<open>Too few images for the grid\<close>

text \<open>
  C4. When the grid that \<open>mosaic\<close> derives has more cells than the table has tiles and
  duplicates are not allowed, the run ends before the output image is created and before
  \<open>placeSpiral\<close> is called, whatever the rounding: the layout step ends with the
  "not enough images" message and the early \<open>return\<close>, and so does \<open>mosaic\<close>, unless
  PIL's \<open>resize\<close>, which comes first, has already raised ValueError for a requested
  size \<open>(dim*XD, dim*YD)\<close> with a side below 1.
\<close>

theorem not_enough_images_aborts:
  assumes "tile_counts rnd canvas margin tilemm (width newImage, height newImage) = Inr (XD, YD)"
    and "int (length table) < XD * YD" "\<not> allowDups"
  shows "mosaic_layout rnd canvas tilemm XD YD (length table) allowDups maxPixels
           = Inl NotEnoughImages
         \<and> mosaic rnd resize newImage rotated table tilemm canvas dimn allowDups margin maxPixels
           = Inl (if (dimn * XD, dimn * YD) \<noteq> (width newImage, height newImage)
                     \<and> (dimn * XD < 1 \<or> dimn * YD < 1)
                  then ValueError else NotEnoughImages)"
  using assms by (simp add: mosaic_def mosaic_layout_def pil_resize_def Let_def)

text \<open>
  The witness is a canvas of 24 by 30 mm with tiles of 10 mm and an image of 4 by 5
  pixels: in double precision \<open>2.4 / 0.8\<close> is just below 3 and the grid is 2 by 2, so
  that a table of three tiles is one short.
\<close>

theorem not_enough_images_aborts_witness:
  "tile_counts fl (24, 30) 0 10
       (width \<lparr>width = 4, height = 5, pixel = \<lambda>x y. (0, 0, 0)\<rparr>, height \<lparr>width = 4, height = 5, pixel = \<lambda>x y. (0, 0, 0)\<rparr>)
     = Inr (2, 2)
   \<and> int (length [(''a'', ([0], [0], [0])), (''b'', ([0], [0], [0])), (''c'', ([0], [0], [0]))]) < 2 * 2
   \<and> \<not> False
   \<and> mosaic fl (\<lambda>im sz. im) \<lparr>width = 4, height = 5, pixel = \<lambda>x y. (0, 0, 0)\<rparr> False
        [(''a'', ([0], [0], [0])), (''b'', ([0], [0], [0])), (''c'', ([0], [0], [0]))] 10 (24, 30) 1 False 0 89478485
     = Inl NotEnoughImages"
proof -
  let ?im = "\<lparr>width = 4, height = 5, pixel = \<lambda>x y. (0 :: int, 0 :: int, 0 :: int)\<rparr>"
  let ?tbl = "[(''a'', ([0 :: int], [0 :: int], [0 :: int])), (''b'', ([0], [0], [0])),
               (''c'', ([0], [0], [0]))]"
  have t1: "fl (12 / 5) = 5404319552844595 / 2251799813685248"
    by (subst fl_eval[where a = 51 and b = 0]) (simp_all add: py_round_def Let_def)
  have t2: "fl 3 = 3"
    by (subst fl_eval[where a = 51 and b = 0]) (simp_all add: py_round_def Let_def)
  have t3: "fl (5404319552844595 / 6755399441055744) = 7205759403792793 / 9007199254740992"
    by (subst fl_eval[where a = 53 and b = 0]) (simp_all add: py_round_def Let_def)
  have t4: "fl (4 / 5) = 3602879701896397 / 4503599627370496"
    by (subst fl_eval[where a = 53 and b = 0]) (simp_all add: py_round_def Let_def)
  have t5: "fl (10808639105689190 / 3602879701896397) = 6755399441055743 / 2251799813685248"
    by (subst fl_eval[where a = 51 and b = 0]) (simp_all add: py_round_def Let_def)
  have tc: "tile_counts fl (24, 30) 0 10 (width ?im, height ?im) = Inr (2, 2)"
    by (simp add: tile_counts_def Let_def py_int_def t1 t2 t3 t4 t5)
  have "mosaic fl (\<lambda>im sz. im) ?im False ?tbl 10 (24, 30) 1 False 0 89478485
          = Inl (if (1 * 2, 1 * 2) \<noteq> (width ?im, height ?im) \<and> ((1 :: int) * 2 < 1 \<or> (1 :: int) * 2 < 1)
                 then ValueError else NotEnoughImages)"
    using not_enough_images_aborts[where table = ?tbl and allowDups = False
        and resize = "\<lambda>im sz. im" and rotated = False and dimn = 1 and maxPixels = 89478485,
        OF tc]
    by simp
  then show ?thesis
    using tc by simp
qed

section \<open>The similarity metric\<close>

lemma metric_loop_identical:
  assumes "\<forall>p \<in> set ps. 0 \<le> fst p \<and> fst p < width oImage \<and> 0 \<le> snd p \<and> snd p < height oImage
             \<and> fst p < width mImage \<and> snd p < height mImage
             \<and> pixel oImage (fst p) (snd p) = pixel mImage (fst p) (snd p)"
  shows "for_each (\<lambda>(x, y). metric_pixel oImage mImage x y) ps (0, same, 0, cnt)
           = Inr (0, same + length ps, 0, cnt + length ps)"
  using assms
proof (induction ps arbitrary: same cnt)
  case Nil
  then show ?case by simp
next
  case (Cons p ps)
  obtain x y where p: "p = (x, y)" by (cases p) auto
  obtain r g b where px: "pixel mImage x y = (r, g, b)" by (cases "pixel mImage x y") auto
  have "metric_pixel oImage mImage x y (0, same, 0, cnt) = Inr (0, same + 1, 0, cnt + 1)"
    using Cons.prems by (simp add: metric_pixel_def getpixel_def p px)
  moreover have "for_each (\<lambda>(x, y). metric_pixel oImage mImage x y) ps (0, same + 1, 0, cnt + 1)
                   = Inr (0, same + 1 + length ps, 0, cnt + 1 + length ps)"
    using Cons.prems by (intro Cons.IH) simp
  ultimately show ?case
    by (simp add: p)
qed

lemma metric_identical:
  assumes "width original \<le> width m" "height original \<le> height m"
    and "1 \<le> width m" "1 \<le> height m"
    and "width (resize original (width m, height m)) = width m"
    and "height (resize original (width m, height m)) = height m"
    and "\<forall>x y. 0 \<le> x \<and> x < width m \<and> 0 \<le> y \<and> y < height m
            \<longrightarrow> pixel (resize original (width m, height m)) x y = pixel m x y"
  shows "metric_percent resize original m = Inr 100"
proof -
  let ?o = "resize original (width m, height m)"
  let ?ps = "[(int x, int y). x \<leftarrow> [0..<nat (width m)], y \<leftarrow> [0..<nat (height m)]]"
  have loops: "for_each (\<lambda>x. for_each (\<lambda>y. metric_pixel ?o m (int x) (int y)) (py_range (height m)))
                 (py_range (width m)) st
               = for_each (\<lambda>(x, y). metric_pixel ?o m x y) ?ps st" for st
  proof -
    have "?ps = map (\<lambda>(x, y). (int x, int y))
                  [(x, y). x \<leftarrow> [0..<nat (width m)], y \<leftarrow> [0..<nat (height m)]]"
      by (simp add: map_concat comp_def)
    moreover have "(\<lambda>(x, y). metric_pixel ?o m (int x) (int y))
                     = (\<lambda>v. (\<lambda>(x, y). metric_pixel ?o m x y) ((\<lambda>(x, y). (int x, int y)) v))"
      by (auto simp: fun_eq_iff)
    ultimately show ?thesis
      unfolding for_each_nested py_range_def by (simp only: for_each_map)
  qed
  have len: "length ?ps = nat (width m) * nat (height m)"
    by (simp add: length_concat comp_def sum_list_triv)
  have pos: "0 < length ?ps"
    using assms(3,4) unfolding len by simp
  have "\<forall>p \<in> set ?ps. 0 \<le> fst p \<and> fst p < width ?o \<and> 0 \<le> snd p \<and> snd p < height ?o
             \<and> fst p < width m \<and> snd p < height m
             \<and> pixel ?o (fst p) (snd p) = pixel m (fst p) (snd p)"
  proof
    fix p assume "p \<in> set ?ps"
    then obtain x y where p: "p = (int x, int y)" "x < nat (width m)" "y < nat (height m)"
      by auto
    then have r: "0 \<le> int x \<and> int x < width m \<and> 0 \<le> int y \<and> int y < height m"
      by linarith
    then have "pixel ?o (int x) (int y) = pixel m (int x) (int y)"
      using assms(7) by blast
    then show "0 \<le> fst p \<and> fst p < width ?o \<and> 0 \<le> snd p \<and> snd p < height ?o
             \<and> fst p < width m \<and> snd p < height m
             \<and> pixel ?o (fst p) (snd p) = pixel m (fst p) (snd p)"
      using r assms(5,6) by (simp add: p(1))
  qed
  from metric_loop_identical[OF this, of 0 0]
  have "metric resize original m = Inr 0"
    using assms(1,2) pos by (simp add: metric_def Let_def loops)
  then show ?thesis
    by (simp add: metric_percent_def)
qed

lemma sqrt_3_square: "sqrt (3 * a * a) = \<bar>a\<bar> * sqrt 3"
proof -
  have "sqrt (3 * a * a) = sqrt (a\<^sup>2 * 3)"
    by (simp add: power2_eq_square mult.commute mult.left_commute)
  also have "\<dots> = \<bar>a\<bar> * sqrt 3"
    by (simp only: real_sqrt_mult real_sqrt_abs)
  finally show ?thesis .
qed

text \<open>
  C5. A black source pixel against a white mosaic pixel is the largest distance two RGB
  pixels can have, \<open>sqrt(3 * 255^2)\<close>. Normalised as the specification says it
  scores 0; \<open>metric\<close> divides by \<open>sqrt(3 * 256 * 256)\<close> and the printed
  percentage is \<open>(1 - 255/256) * 100 = 25/64\<close>.
\<close>

theorem metric_normalises_by_256:
  "metric_percent (\<lambda>im sz. im) \<lparr>width = 1, height = 1, pixel = \<lambda>x y. (0, 0, 0)\<rparr>
       \<lparr>width = 1, height = 1, pixel = \<lambda>x y. (255, 255, 255)\<rparr> = Inr (25 / 64)
   \<and> similarity_spec \<lparr>width = 1, height = 1, pixel = \<lambda>x y. (0, 0, 0)\<rparr>
       \<lparr>width = 1, height = 1, pixel = \<lambda>x y. (255, 255, 255)\<rparr> = 0"
proof -
  have a: "sqrt 195075 = 255 * sqrt 3"
    using sqrt_3_square[of 255] by simp
  have b: "sqrt 196608 = 256 * sqrt 3"
    using sqrt_3_square[of 256] by simp
  have m: "metric (\<lambda>im sz. im) \<lparr>width = 1, height = 1, pixel = \<lambda>x y. (0, 0, 0)\<rparr>
       \<lparr>width = 1, height = 1, pixel = \<lambda>x y. (255, 255, 255)\<rparr> = Inr (255 / 256)"
    by (simp add: metric_def metric_pixel_def metric_factor_def Let_def py_range_def
          getpixel_def a b)
  show ?thesis
    by (simp add: metric_percent_def m similarity_spec_def a)
qed

end
